theory Spec2Isabelle
  imports Complex_Main
begin

section \<open>Overlay model (types.ts) and numeric helper (tools.ts)\<close>

text \<open>
  The TypeScript \<open>number\<close> type is modelled by \<^typ>\<open>real\<close>, and the non-finite values of
  IEEE doubles (NaN, the infinities) have no counterpart. In the handlers arithmetic is
  exact. In the cover-fit placement, where equalities between computed sizes are at
  stake, every operation is rounded to the nearest double (\<open>to_double\<close>). Where the
  source divides, the division by zero is made an explicit \<open>None\<close> branch of the model.
  Optional fields (\<open>src?\<close>, \<open>text?\<close>) are \<open>string option\<close>; the JavaScript truthiness
  test on such a field (\<open>o.src\<close>, \<open>!id\<close>) is \<open>truthy\<close>: present and not the empty string.
  The fields of \<open>OverlayItem\<close> carry the prefix \<open>o_\<close>, since \<open>id\<close>, \<open>x\<close>, \<open>y\<close> and
  \<open>text\<close> are taken in Isabelle.
\<close>

datatype overlay_kind = Image | Text

record overlay_item =
  o_id :: string
  o_kind :: overlay_kind
  o_x :: real
  o_y :: real
  o_scale :: real
  o_rotation :: real
  o_src :: "string option"
  o_text :: "string option"

definition truthy :: "string option \<Rightarrow> bool" where
  "truthy s = (case s of None \<Rightarrow> False | Some t \<Rightarrow> t \<noteq> [])"

text \<open>\<open>clamp(n, min, max) = Math.max(min, Math.min(max, n))\<close>\<close>

definition clamp :: "real \<Rightarrow> real \<Rightarrow> real \<Rightarrow> real" where
  "clamp n mn mx = max mn (min mx n)"

section \<open>Interaction controller (CanvasStage: pointer and wheel handlers)\<close>

record drag_state =
  drag_id :: string
  offsetX :: real
  offsetY :: real

record best_hit =
  b_id :: string
  b_dist :: real

record pointer_event =
  clientX :: real
  clientY :: real
  rect_left :: real
  rect_top :: real

record wheel_event =
  deltaY :: real
  shiftKey :: bool

text \<open>
  The part of the component's state that the handlers read and write: the \<open>overlays\<close>
  prop (written through \<open>setOverlays\<close>), and the \<open>drag\<close> and \<open>selectedId\<close> state cells.
\<close>

record stage =
  overlays :: "overlay_item list"
  drag :: "drag_state option"
  selectedId :: "string option"

definition getPointerPos :: "pointer_event \<Rightarrow> real \<times> real" where
  "getPointerPos e = (clientX e - rect_left e, clientY e - rect_top e)"

text \<open>The distance that \<open>pickOverlay\<close> computes for one overlay.\<close>

definition center_dist :: "real \<Rightarrow> real \<Rightarrow> overlay_item \<Rightarrow> real" where
  "center_dist x y ov =
     (let dx = o_x ov - x; dy = o_y ov - y in sqrt (dx * dx + dy * dy))"

text \<open>The \<open>for (const o of overlays)\<close> loop of \<open>pickOverlay\<close>, with the running \<open>best\<close>.\<close>

fun pick_loop :: "real \<Rightarrow> real \<Rightarrow> best_hit option \<Rightarrow> overlay_item list \<Rightarrow> best_hit option" where
  "pick_loop x y best [] = best"
| "pick_loop x y best (ov # ovs) =
     (let dist = center_dist x y ov in
      pick_loop x y
        (if (case best of None \<Rightarrow> True | Some b \<Rightarrow> dist < b_dist b)
         then Some \<lparr>b_id = o_id ov, b_dist = dist\<rparr>
         else best)
        ovs)"

definition pickOverlay :: "overlay_item list \<Rightarrow> real \<Rightarrow> real \<Rightarrow> string option" where
  "pickOverlay ovs x y =
     (if length ovs = 0 then None
      else case pick_loop x y None ovs of
             None \<Rightarrow> None
           | Some b \<Rightarrow> if b_dist b < 120 then Some (b_id b) else None)"

definition onPointerDown :: "pointer_event \<Rightarrow> stage \<Rightarrow> stage" where
  "onPointerDown e st =
     (let p = getPointerPos e;
          pid = pickOverlay (overlays st) (fst p) (snd p);
          st1 = st\<lparr>selectedId := pid\<rparr>
      in case pid of
           None \<Rightarrow> st1
         | Some i \<Rightarrow>
             if i = [] then st1
             else case find (\<lambda>v. o_id v = i) (overlays st) of
                    None \<Rightarrow> st1
                  | Some ov \<Rightarrow>
                      st1\<lparr>drag := Some \<lparr>drag_id = i,
                                         offsetX = fst p - o_x ov,
                                         offsetY = snd p - o_y ov\<rparr>\<rparr>)"

definition onPointerMove :: "pointer_event \<Rightarrow> stage \<Rightarrow> stage" where
  "onPointerMove e st =
     (case drag st of
        None \<Rightarrow> st
      | Some d \<Rightarrow>
          (let p = getPointerPos e in
           st\<lparr>overlays :=
                map (\<lambda>ov. if o_id ov = drag_id d
                           then ov\<lparr>o_x := fst p - offsetX d, o_y := snd p - offsetY d\<rparr>
                           else ov)
                    (overlays st)\<rparr>))"

definition onPointerUp :: "stage \<Rightarrow> stage" where
  "onPointerUp st = st\<lparr>drag := None\<rparr>"

definition onWheel :: "wheel_event \<Rightarrow> stage \<Rightarrow> stage" where
  "onWheel e st =
     (if \<not> truthy (selectedId st) then st
      else
        (let delta = sgn (deltaY e) in
         st\<lparr>overlays :=
              map (\<lambda>ov. if Some (o_id ov) \<noteq> selectedId st then ov
                         else if shiftKey e
                              then ov\<lparr>o_rotation := o_rotation ov + delta * 0.08\<rparr>
                              else ov\<lparr>o_scale :=
                                        clamp (o_scale ov * (if delta > 0 then 0.92 else 1.08)) 0.2 4\<rparr>)
                  (overlays st)\<rparr>))"

section \<open>Overlay factories of the controller (App.tsx)\<close>

text \<open>
  \<open>addOverlay\<close> and \<open>addText\<close> append a new overlay to the collection. The identifier
  that \<open>uid\<close> draws from the clock and the random source is a parameter here.
\<close>

definition addOverlay :: "string \<Rightarrow> string \<Rightarrow> overlay_item list \<Rightarrow> overlay_item list" where
  "addOverlay uid src prev =
     prev @ [\<lparr>o_id = uid, o_kind = Image, o_x = 300, o_y = 300, o_scale = 0.6,
              o_rotation = 0, o_src = Some src, o_text = None\<rparr>]"

definition addText :: "string \<Rightarrow> overlay_item list \<Rightarrow> overlay_item list" where
  "addText uid prev =
     prev @ [\<lparr>o_id = uid, o_kind = Text, o_x = 300, o_y = 80, o_scale = 1,
              o_rotation = 0, o_src = None, o_text = Some ''LOL''\<rparr>]"

section \<open>Event sequences\<close>

text \<open>
  A run of pointer-move events, and a run of wheel events, each handled in turn.
  \<open>move_to\<close> is the function that \<open>onPointerMove\<close> maps over the collection;
  \<open>wheel_scale\<close> is the new scale that \<open>onWheel\<close> computes without the shift key, and
  \<open>scales_after\<close> iterates it along a run of events.
\<close>

definition run_moves :: "pointer_event list \<Rightarrow> stage \<Rightarrow> stage" where
  "run_moves es st = foldl (\<lambda>s e. onPointerMove e s) st es"

definition move_to :: "drag_state \<Rightarrow> real \<times> real \<Rightarrow> overlay_item \<Rightarrow> overlay_item" where
  "move_to d p ov =
     (if o_id ov = drag_id d then ov\<lparr>o_x := fst p - offsetX d, o_y := snd p - offsetY d\<rparr> else ov)"

definition run_wheels :: "wheel_event list \<Rightarrow> stage \<Rightarrow> stage" where
  "run_wheels es st = foldl (\<lambda>s e. onWheel e s) st es"

definition wheel_scale :: "wheel_event \<Rightarrow> real \<Rightarrow> real" where
  "wheel_scale e s = clamp (s * (if sgn (deltaY e) > 0 then 0.92 else 1.08)) 0.2 4"

definition scales_after :: "wheel_event list \<Rightarrow> real \<Rightarrow> real" where
  "scales_after es s = foldl (\<lambda>s e. wheel_scale e s) s es"

section \<open>Canvas 2D context (platform API used by the draw effect)\<close>

text \<open>
  The drawing context is modelled by its drawing state (the current transformation
  matrix and the styles the draw effect sets), the stack that \<open>save\<close> and \<open>restore\<close>
  work on, and the log of drawing calls issued so far, each recorded with the drawing
  state it was issued under. A later entry of the log paints over an earlier one.
  A matrix \<open>(a, b, c, d, e, f)\<close> maps \<open>(x, y)\<close> to \<open>(a x + c y + e, b x + d y + f)\<close>;
  \<open>translate\<close>, \<open>rotate\<close> and \<open>scale\<close> multiply the current matrix on the right.
  \<open>html_image\<close> is a decoded \<open>HTMLImageElement\<close>.
\<close>

type_synonym matrix = "real \<times> real \<times> real \<times> real \<times> real \<times> real"

definition mat_mul :: "matrix \<Rightarrow> matrix \<Rightarrow> matrix" where
  "mat_mul m n =
     (case m of (a1, b1, c1, d1, e1, f1) \<Rightarrow>
      case n of (a2, b2, c2, d2, e2, f2) \<Rightarrow>
        (a1 * a2 + c1 * b2, b1 * a2 + d1 * b2,
         a1 * c2 + c1 * d2, b1 * c2 + d1 * d2,
         a1 * e2 + c1 * f2 + e1, b1 * e2 + d1 * f2 + f1))"

definition mat_apply :: "matrix \<Rightarrow> real \<times> real \<Rightarrow> real \<times> real" where
  "mat_apply m p =
     (case m of (a, b, c, d, e, f) \<Rightarrow>
        (a * fst p + c * snd p + e, b * fst p + d * snd p + f))"

definition mat_identity :: matrix where
  "mat_identity = (1, 0, 0, 1, 0, 0)"

definition translate_m :: "real \<Rightarrow> real \<Rightarrow> matrix" where
  "translate_m tx ty = (1, 0, 0, 1, tx, ty)"

definition rotate_m :: "real \<Rightarrow> matrix" where
  "rotate_m a = (cos a, sin a, - sin a, cos a, 0, 0)"

definition scale_m :: "real \<Rightarrow> real \<Rightarrow> matrix" where
  "scale_m sx sy = (sx, 0, 0, sy, 0, 0)"

record html_image =
  img_src :: string
  naturalWidth :: nat
  naturalHeight :: nat

record draw_state =
  ctm :: matrix
  fillStyle :: string
  strokeStyle :: string
  lineWidth :: real
  font :: string
  textAlign :: string
  textBaseline :: string

datatype draw_op =
    ClearRect draw_state real real real real
  | FillRect draw_state real real real real
  | StrokeRect draw_state real real real real
  | DrawImage draw_state html_image real real real real
  | FillText draw_state string real real

record ctx2d =
  cur :: draw_state
  saved :: "draw_state list"
  ops :: "draw_op list"

definition ctx_reset :: ctx2d where
  "ctx_reset =
     \<lparr>cur = \<lparr>ctm = mat_identity, fillStyle = ''#000000'', strokeStyle = ''#000000'',
             lineWidth = 1, font = ''10px sans-serif'', textAlign = ''start'',
             textBaseline = ''alphabetic''\<rparr>,
      saved = [], ops = []\<rparr>"

definition ctx_save :: "ctx2d \<Rightarrow> ctx2d" where
  "ctx_save c = c\<lparr>saved := cur c # saved c\<rparr>"

definition ctx_restore :: "ctx2d \<Rightarrow> ctx2d" where
  "ctx_restore c = (case saved c of [] \<Rightarrow> c | s # ss \<Rightarrow> c\<lparr>cur := s, saved := ss\<rparr>)"

definition ctx_setTransform :: "matrix \<Rightarrow> ctx2d \<Rightarrow> ctx2d" where
  "ctx_setTransform m c = c\<lparr>cur := (cur c)\<lparr>ctm := m\<rparr>\<rparr>"

definition ctx_transform :: "matrix \<Rightarrow> ctx2d \<Rightarrow> ctx2d" where
  "ctx_transform m c = c\<lparr>cur := (cur c)\<lparr>ctm := mat_mul (ctm (cur c)) m\<rparr>\<rparr>"

definition ctx_translate :: "real \<Rightarrow> real \<Rightarrow> ctx2d \<Rightarrow> ctx2d" where
  "ctx_translate tx ty = ctx_transform (translate_m tx ty)"

definition ctx_rotate :: "real \<Rightarrow> ctx2d \<Rightarrow> ctx2d" where
  "ctx_rotate a = ctx_transform (rotate_m a)"

definition ctx_scale :: "real \<Rightarrow> real \<Rightarrow> ctx2d \<Rightarrow> ctx2d" where
  "ctx_scale sx sy = ctx_transform (scale_m sx sy)"

definition set_fillStyle :: "string \<Rightarrow> ctx2d \<Rightarrow> ctx2d" where
  "set_fillStyle s c = c\<lparr>cur := (cur c)\<lparr>fillStyle := s\<rparr>\<rparr>"

definition set_strokeStyle :: "string \<Rightarrow> ctx2d \<Rightarrow> ctx2d" where
  "set_strokeStyle s c = c\<lparr>cur := (cur c)\<lparr>strokeStyle := s\<rparr>\<rparr>"

definition set_lineWidth :: "real \<Rightarrow> ctx2d \<Rightarrow> ctx2d" where
  "set_lineWidth v c = c\<lparr>cur := (cur c)\<lparr>lineWidth := v\<rparr>\<rparr>"

definition set_font :: "string \<Rightarrow> ctx2d \<Rightarrow> ctx2d" where
  "set_font s c = c\<lparr>cur := (cur c)\<lparr>font := s\<rparr>\<rparr>"

definition set_textAlign :: "string \<Rightarrow> ctx2d \<Rightarrow> ctx2d" where
  "set_textAlign s c = c\<lparr>cur := (cur c)\<lparr>textAlign := s\<rparr>\<rparr>"

definition set_textBaseline :: "string \<Rightarrow> ctx2d \<Rightarrow> ctx2d" where
  "set_textBaseline s c = c\<lparr>cur := (cur c)\<lparr>textBaseline := s\<rparr>\<rparr>"

definition emit :: "draw_op \<Rightarrow> ctx2d \<Rightarrow> ctx2d" where
  "emit op c = c\<lparr>ops := ops c @ [op]\<rparr>"

definition ctx_clearRect :: "real \<Rightarrow> real \<Rightarrow> real \<Rightarrow> real \<Rightarrow> ctx2d \<Rightarrow> ctx2d" where
  "ctx_clearRect x y w h c = emit (ClearRect (cur c) x y w h) c"

definition ctx_fillRect :: "real \<Rightarrow> real \<Rightarrow> real \<Rightarrow> real \<Rightarrow> ctx2d \<Rightarrow> ctx2d" where
  "ctx_fillRect x y w h c = emit (FillRect (cur c) x y w h) c"

definition ctx_strokeRect :: "real \<Rightarrow> real \<Rightarrow> real \<Rightarrow> real \<Rightarrow> ctx2d \<Rightarrow> ctx2d" where
  "ctx_strokeRect x y w h c = emit (StrokeRect (cur c) x y w h) c"

definition ctx_drawImage :: "html_image \<Rightarrow> real \<Rightarrow> real \<Rightarrow> real \<Rightarrow> real \<Rightarrow> ctx2d \<Rightarrow> ctx2d" where
  "ctx_drawImage img x y w h c = emit (DrawImage (cur c) img x y w h) c"

definition ctx_fillText :: "string \<Rightarrow> real \<Rightarrow> real \<Rightarrow> ctx2d \<Rightarrow> ctx2d" where
  "ctx_fillText t x y c = emit (FillText (cur c) t x y) c"

section \<open>Render pipeline (CanvasStage: draw effect)\<close>

text \<open>
  The draw effect, for a canvas and a context that are present. Assigning
  \<open>canvas.width\<close> resets the context, so the effect starts from \<open>ctx_reset\<close>.
  \<open>cover_fit\<close> is the arithmetic of the base-image branch, each division,
  multiplication and subtraction rounded as the source's doubles are (\<open>Math.max\<close> is
  exact); with a zero natural dimension the quotients are not finite numbers,
  \<open>drawImage\<close> ignores a call with such arguments, and the model issues no call. \<open>draw_shape\<close> is the two-branch body of the
  overlay loop between the frame set-up and \<open>restore\<close>; \<open>outline\<close> is the selection
  outline that both branches draw. The parameters \<open>imgs\<close> and \<open>sel\<close> are the
  \<open>overlayImgs\<close> and \<open>selectedId\<close> state cells.
\<close>

definition dpr_of :: "real \<Rightarrow> real" where
  "dpr_of devicePixelRatio = (if devicePixelRatio = 0 then 1 else devicePixelRatio)"

definition stageSize :: "real option \<Rightarrow> real \<times> real" where
  "stageSize clientWidth =
     (let w = (case clientWidth of None \<Rightarrow> 600 | Some v \<Rightarrow> v);
          size = clamp w 320 900
      in (size, size))"

text \<open>
  Rounding to IEEE-754 binary64, round to nearest, ties to even: a non-zero \<open>x\<close> with
  \<open>2 ^ e \<le> |x| < 2 ^ (e + 1)\<close> is rounded to the nearest multiple of \<open>2 ^ (e - 52)\<close>.
  The exponent is not bounded, so overflow and subnormal numbers are left out; neither
  occurs for the stage sizes, which lie in \<open>[320, 900]\<close>, and natural dimensions below
  \<open>2 ^ 32\<close>. \<open>unit_roundoff\<close> is the relative error bound \<open>2 ^ -53\<close> of one rounding.
\<close>

definition round_even :: "real \<Rightarrow> int" where
  "round_even q =
     (let f = \<lfloor>q\<rfloor>; r = q - of_int f in
      if r < 1 / 2 then f
      else if 1 / 2 < r then f + 1
      else if even f then f else f + 1)"

definition to_double :: "real \<Rightarrow> real" where
  "to_double x =
     (if x = 0 then 0
      else
        (let e = \<lfloor>log 2 \<bar>x\<bar>\<rfloor>;
             ulp = 2 powi (e - 52)
         in of_int (round_even (x / ulp)) * ulp))"


record placement =
  p_scale :: real
  p_dx :: real
  p_dy :: real
  p_dw :: real
  p_dh :: real

definition cover_fit :: "real \<Rightarrow> real \<Rightarrow> html_image \<Rightarrow> placement option" where
  "cover_fit w h img =
     (let iw = real (naturalWidth img); ih = real (naturalHeight img) in
      if iw = 0 \<or> ih = 0 then None
      else
        (let scale = max (to_double (w / iw)) (to_double (h / ih));
             dw = to_double (iw * scale);
             dh = to_double (ih * scale);
             dx = to_double (to_double (w - dw) / 2);
             dy = to_double (to_double (h - dh) / 2)
         in Some \<lparr>p_scale = scale, p_dx = dx, p_dy = dy, p_dw = dw, p_dh = dh\<rparr>))"

definition draw_base :: "real \<Rightarrow> real \<Rightarrow> html_image option \<Rightarrow> ctx2d \<Rightarrow> ctx2d" where
  "draw_base w h baseImg c =
     (case baseImg of
        Some img \<Rightarrow>
          (case cover_fit w h img of
             None \<Rightarrow> c
           | Some pl \<Rightarrow> ctx_drawImage img (p_dx pl) (p_dy pl) (p_dw pl) (p_dh pl) c)
      | None \<Rightarrow>
          ctx_fillText ''Upload a photo to start'' 20 30
            (set_font ''16px system-ui, -apple-system, Segoe UI, Roboto, Arial''
              (set_fillStyle ''#bbb''
                (ctx_fillRect 0 0 w h
                  (set_fillStyle ''#222'' c)))))"

definition outline :: "real \<Rightarrow> real \<Rightarrow> real \<Rightarrow> real \<Rightarrow> ctx2d \<Rightarrow> ctx2d" where
  "outline x y w h c =
     ctx_strokeRect x y w h (set_lineWidth 2 (set_strokeStyle ''rgba(255,255,255,0.8)'' c))"

definition draw_shape :: "(string \<rightharpoonup> html_image) \<Rightarrow> string option \<Rightarrow> overlay_item \<Rightarrow> ctx2d \<Rightarrow> ctx2d" where
  "draw_shape imgs sel ov c =
     (if o_kind ov = Image \<and> truthy (o_src ov) then
        (case imgs (o_id ov) of
           None \<Rightarrow> c
         | Some img \<Rightarrow>
             (let ow = real (naturalWidth img);
                  oh = real (naturalHeight img);
                  c1 = ctx_drawImage img (- ow / 2) (- oh / 2) ow oh c
              in if Some (o_id ov) = sel then outline (- ow / 2) (- oh / 2) ow oh c1 else c1))
      else if o_kind ov = Text \<and> truthy (o_text ov) then
        (case o_text ov of
           None \<Rightarrow> c
         | Some t \<Rightarrow>
             (let c1 = ctx_fillText t 0 0
                         (set_textBaseline ''middle''
                           (set_textAlign ''center''
                             (set_font ''48px Impact, system-ui''
                               (set_fillStyle ''white'' c))))
              in if Some (o_id ov) = sel then outline (- 150) (- 35) 300 70 c1 else c1))
      else c)"

definition draw_overlay :: "(string \<rightharpoonup> html_image) \<Rightarrow> string option \<Rightarrow> overlay_item \<Rightarrow> ctx2d \<Rightarrow> ctx2d" where
  "draw_overlay imgs sel ov c =
     ctx_restore
       (draw_shape imgs sel ov
         (ctx_scale (o_scale ov) (o_scale ov)
           (ctx_rotate (o_rotation ov)
             (ctx_translate (o_x ov) (o_y ov)
               (ctx_save c)))))"

definition draw_overlays :: "(string \<rightharpoonup> html_image) \<Rightarrow> string option \<Rightarrow> overlay_item list \<Rightarrow> ctx2d \<Rightarrow> ctx2d" where
  "draw_overlays imgs sel ovs c = foldl (\<lambda>c ov. draw_overlay imgs sel ov c) c ovs"

record canvas =
  canvas_width :: int
  canvas_height :: int
  canvas_ctx :: ctx2d

definition draw ::
  "html_image option \<Rightarrow> overlay_item list \<Rightarrow> (string \<rightharpoonup> html_image) \<Rightarrow> real \<times> real \<Rightarrow> real
     \<Rightarrow> string option \<Rightarrow> canvas" where
  "draw baseImg ovs imgs sz dpr sel =
     (let w = fst sz; h = snd sz;
          c1 = ctx_setTransform (dpr, 0, 0, dpr, 0, 0) ctx_reset;
          c2 = ctx_clearRect 0 0 w h c1;
          c3 = ctx_fillRect 0 0 w h (set_fillStyle ''#111'' c2);
          c4 = draw_base w h baseImg c3;
          c5 = draw_overlays imgs sel ovs c4
      in \<lparr>canvas_width = \<lfloor>w * dpr\<rfloor>, canvas_height = \<lfloor>h * dpr\<rfloor>, canvas_ctx = c5\<rparr>)"

text \<open>
  For stating the paint order: the drawing calls that one overlay adds under a given
  drawing state, the drawing state a call was issued under, what it means for a call to
  be centred on the local origin, and the local frame as the specification words it
  (translate, then rotate, then scale).
\<close>

definition overlay_ops :: "(string \<rightharpoonup> html_image) \<Rightarrow> string option \<Rightarrow> draw_state \<Rightarrow> overlay_item \<Rightarrow> draw_op list" where
  "overlay_ops imgs sel st ov = ops (draw_overlay imgs sel ov \<lparr>cur = st, saved = [], ops = []\<rparr>)"

fun op_state :: "draw_op \<Rightarrow> draw_state" where
  "op_state (ClearRect s x y w h) = s"
| "op_state (FillRect s x y w h) = s"
| "op_state (StrokeRect s x y w h) = s"
| "op_state (DrawImage s img x y w h) = s"
| "op_state (FillText s t x y) = s"

fun centered :: "draw_op \<Rightarrow> bool" where
  "centered (StrokeRect s x y w h) = (x = - w / 2 \<and> y = - h / 2)"
| "centered (DrawImage s img x y w h) = (x = - w / 2 \<and> y = - h / 2)"
| "centered (FillText s t x y) = (x = 0 \<and> y = 0 \<and> textAlign s = ''center'' \<and> textBaseline s = ''middle'')"
| "centered (ClearRect s x y w h) = False"
| "centered (FillRect s x y w h) = False"

definition local_frame :: "matrix \<Rightarrow> overlay_item \<Rightarrow> matrix" where
  "local_frame m ov =
     mat_mul (mat_mul (mat_mul m (translate_m (o_x ov) (o_y ov))) (rotate_m (o_rotation ov)))
             (scale_m (o_scale ov) (o_scale ov))"

section \<open>Image loading effects (CanvasStage: the two load effects)\<close>

text \<open>
  Decoding is asynchronous: \<open>loadImage\<close> returns a promise that the platform settles
  later, on the same thread. Each effect is modelled as a machine whose events are the
  change of the effect's dependency, which runs the previous run's cleanup and then the
  effect body, and the settling of a load the effect has started. A trace of events is
  one interleaving of renders and completions.
\<close>

subsection \<open>Base image\<close>

text \<open>
  \<open>base_loads\<close> holds one entry per call of \<open>loadImage\<close> by the base-image effect, with the
  \<open>cancelled\<close> variable of the effect run that made the call; \<open>base_current\<close> is the
  load of the latest run, the one whose \<open>cancelled\<close> the next cleanup sets.
  \<open>BaseLoaded k w h\<close> is the \<open>onload\<close> of load \<open>k\<close> with the decoded dimensions: the
  \<open>await\<close> resumes and \<open>setBaseImg\<close> is called unless \<open>cancelled\<close>. \<open>BaseFailed k\<close> is
  its \<open>onerror\<close>: the promise of the async function rejects and the \<open>catch\<close> handler
  calls \<open>setBaseImg(null)\<close>.
\<close>

record base_load =
  bl_url :: string
  bl_cancelled :: bool
  bl_settled :: bool

record base_loader =
  baseImageUrl :: "string option"
  baseImg :: "html_image option"
  base_loads :: "base_load list"
  base_current :: "nat option"

datatype base_event =
    SetBaseImageUrl "string option"
  | BaseLoaded nat nat nat
  | BaseFailed nat

definition base_cleanup :: "base_loader \<Rightarrow> base_loader" where
  "base_cleanup st =
     (case base_current st of
        None \<Rightarrow> st
      | Some k \<Rightarrow> st\<lparr>base_loads := (base_loads st)[k := (base_loads st ! k)\<lparr>bl_cancelled := True\<rparr>]\<rparr>)"

definition base_effect :: "string option \<Rightarrow> base_loader \<Rightarrow> base_loader" where
  "base_effect u st =
     (case u of
        None \<Rightarrow> st\<lparr>baseImageUrl := u, baseImg := None, base_current := None\<rparr>
      | Some s \<Rightarrow>
          if s = [] then st\<lparr>baseImageUrl := u, baseImg := None, base_current := None\<rparr>
          else st\<lparr>baseImageUrl := u,
                  base_loads := base_loads st @ [\<lparr>bl_url = s, bl_cancelled = False, bl_settled = False\<rparr>],
                  base_current := Some (length (base_loads st))\<rparr>)"

definition base_init :: base_loader where
  "base_init = \<lparr>baseImageUrl = None, baseImg = None, base_loads = [], base_current = None\<rparr>"

definition base_mount :: "string option \<Rightarrow> base_loader" where
  "base_mount u = base_effect u base_init"

fun base_step :: "base_event \<Rightarrow> base_loader \<Rightarrow> base_loader" where
  "base_step (SetBaseImageUrl u) st =
     (if u = baseImageUrl st then st else base_effect u (base_cleanup st))"
| "base_step (BaseLoaded k w h) st =
     (if k < length (base_loads st) \<and> \<not> bl_settled (base_loads st ! k) then
        (let l = base_loads st ! k;
             st1 = st\<lparr>base_loads := (base_loads st)[k := l\<lparr>bl_settled := True\<rparr>]\<rparr>
         in if \<not> bl_cancelled l
            then st1\<lparr>baseImg := Some \<lparr>img_src = bl_url l, naturalWidth = w, naturalHeight = h\<rparr>\<rparr>
            else st1)
      else st)"
| "base_step (BaseFailed k) st =
     (if k < length (base_loads st) \<and> \<not> bl_settled (base_loads st ! k) then
        st\<lparr>base_loads := (base_loads st)[k := (base_loads st ! k)\<lparr>bl_settled := True\<rparr>],
           baseImg := None\<rparr>
      else st)"

definition base_run :: "base_event list \<Rightarrow> base_loader \<Rightarrow> base_loader" where
  "base_run es st = foldl (\<lambda>s e. base_step e s) st es"

subsection \<open>Overlay images\<close>

text \<open>
  A batch is one run of the overlay effect that found missing images: the pairs
  \<open>needed\<close>, the state of the promise of each pair's inner async function (which
  fulfils with the pair of the id and the decoded image), and the run's \<open>cancelled\<close>
  variable. \<open>promise_all\<close> is the state of \<open>Promise.all\<close> over promises in the given
  states. \<open>settle b i r\<close> settles promise \<open>i\<close> of batch \<open>b\<close>; the \<open>await\<close> on
  \<open>Promise.all\<close> resumes when this makes the joint promise fulfilled, and then
  \<open>setOverlayImgs\<close> merges the pairs into the cache of that moment unless \<open>cancelled\<close>;
  a rejection is swallowed by the \<open>catch\<close> handler. \<open>overlayImgs\<close> is a finite map.
\<close>

datatype 'a outcome = Pending | Fulfilled 'a | Rejected

fun promise_all :: "'a outcome list \<Rightarrow> 'a list outcome" where
  "promise_all [] = Fulfilled []"
| "promise_all (Rejected # rs) = Rejected"
| "promise_all (Pending # rs) = (case promise_all rs of Rejected \<Rightarrow> Rejected | _ \<Rightarrow> Pending)"
| "promise_all (Fulfilled v # rs) =
     (case promise_all rs of
        Fulfilled vs \<Rightarrow> Fulfilled (v # vs)
      | Pending \<Rightarrow> Pending
      | Rejected \<Rightarrow> Rejected)"

record overlay_batch =
  ob_needed :: "(string \<times> string) list"
  ob_results :: "(string \<times> html_image) outcome list"
  ob_cancelled :: bool

record overlay_loader =
  overlayImgs :: "string \<rightharpoonup> html_image"
  batches :: "overlay_batch list"
  batch_current :: "nat option"

datatype overlay_event =
    OverlaysChanged "overlay_item list"
  | OverlayLoaded nat nat nat nat
  | OverlayFailed nat nat

definition needed_of :: "overlay_item list \<Rightarrow> (string \<rightharpoonup> html_image) \<Rightarrow> (string \<times> string) list" where
  "needed_of ovs imgs =
     (let entries = map (\<lambda>ov. (o_id ov, case o_src ov of Some s \<Rightarrow> s | None \<Rightarrow> []))
                        (filter (\<lambda>ov. o_kind ov = Image \<and> truthy (o_src ov)) ovs)
      in filter (\<lambda>(i, s). imgs i = None) entries)"

definition merge_pairs :: "(string \<times> html_image) list \<Rightarrow> (string \<rightharpoonup> html_image) \<Rightarrow> (string \<rightharpoonup> html_image)" where
  "merge_pairs loadedPairs prev = foldl (\<lambda>next (i, img). next(i \<mapsto> img)) prev loadedPairs"

definition overlay_cleanup :: "overlay_loader \<Rightarrow> overlay_loader" where
  "overlay_cleanup st =
     (case batch_current st of
        None \<Rightarrow> st
      | Some b \<Rightarrow> st\<lparr>batches := (batches st)[b := (batches st ! b)\<lparr>ob_cancelled := True\<rparr>]\<rparr>)"

definition overlay_effect :: "overlay_item list \<Rightarrow> overlay_loader \<Rightarrow> overlay_loader" where
  "overlay_effect ovs st =
     (let needed = needed_of ovs (overlayImgs st) in
      if length needed = 0 then st\<lparr>batch_current := None\<rparr>
      else st\<lparr>batches := batches st @
                  [\<lparr>ob_needed = needed, ob_results = replicate (length needed) Pending,
                    ob_cancelled = False\<rparr>],
              batch_current := Some (length (batches st))\<rparr>)"

definition settle ::
  "nat \<Rightarrow> nat \<Rightarrow> (string \<times> html_image) outcome \<Rightarrow> overlay_loader \<Rightarrow> overlay_loader" where
  "settle b i r st =
     (if b < length (batches st) \<and> i < length (ob_results (batches st ! b)) \<and>
         ob_results (batches st ! b) ! i = Pending then
        (let bt = batches st ! b;
             results = (ob_results bt)[i := r];
             st1 = st\<lparr>batches := (batches st)[b := bt\<lparr>ob_results := results\<rparr>]\<rparr>
         in case promise_all results of
              Fulfilled loadedPairs \<Rightarrow>
                if \<not> ob_cancelled bt
                then st1\<lparr>overlayImgs := merge_pairs loadedPairs (overlayImgs st1)\<rparr>
                else st1
            | _ \<Rightarrow> st1)
      else st)"

fun overlay_step :: "overlay_event \<Rightarrow> overlay_loader \<Rightarrow> overlay_loader" where
  "overlay_step (OverlaysChanged ovs) st = overlay_effect ovs (overlay_cleanup st)"
| "overlay_step (OverlayLoaded b i w h) st =
     (if b < length (batches st) \<and> i < length (ob_needed (batches st ! b)) then
        (let (oid, s) = ob_needed (batches st ! b) ! i in
         settle b i (Fulfilled (oid, \<lparr>img_src = s, naturalWidth = w, naturalHeight = h\<rparr>)) st)
      else st)"
| "overlay_step (OverlayFailed b i) st = settle b i Rejected st"

definition overlay_run :: "overlay_event list \<Rightarrow> overlay_loader \<Rightarrow> overlay_loader" where
  "overlay_run es st = foldl (\<lambda>s e. overlay_step e s) st es"

definition overlay_init :: overlay_loader where
  "overlay_init = \<lparr>overlayImgs = Map.empty, batches = [], batch_current = None\<rparr>"

definition overlay_mount :: "overlay_item list \<Rightarrow> overlay_loader" where
  "overlay_mount ovs = overlay_effect ovs overlay_init"

text \<open>
  For stating properties of one batch: the events that settle a promise of batch \<open>b\<close>,
  the state of its joint promise, and the well-formedness of a batch (one result per
  needed pair, a fulfilled result carrying the id of its pair).
\<close>

fun completes :: "nat \<Rightarrow> overlay_event \<Rightarrow> bool" where
  "completes b (OverlaysChanged ovs) = False"
| "completes b (OverlayLoaded b' i w h) = (b' = b)"
| "completes b (OverlayFailed b' i) = (b' = b)"

definition joint :: "nat \<Rightarrow> overlay_loader \<Rightarrow> (string \<times> html_image) list outcome" where
  "joint b st = promise_all (ob_results (batches st ! b))"

definition batch_ok :: "overlay_batch \<Rightarrow> bool" where
  "batch_ok bt =
     (length (ob_results bt) = length (ob_needed bt) \<and>
      (\<forall>i<length (ob_needed bt). \<forall>p. ob_results bt ! i = Fulfilled p \<longrightarrow> fst p = fst (ob_needed bt ! i)))"

text \<open>
  For stating what a run of events does to a batch without looking into the loader:
  \<open>is_change\<close> tells a collection change from a completion; \<open>first_completion b i es\<close>
  is what the run \<open>es\<close> reports first for decode \<open>i\<close> of batch \<open>b\<close> (the decoded
  dimensions, a failure, or nothing yet), a promise being settled once; \<open>image_of\<close> is
  the pair of id and image that the inner async function returns for a needed pair, and
  \<open>decoded\<close> the state of its promise. \<open>superseded\<close> holds of a loader in which every
  batch but the current one has its \<open>cancelled\<close> flag set.
\<close>

fun is_change :: "overlay_event \<Rightarrow> bool" where
  "is_change (OverlaysChanged ovs) = True"
| "is_change (OverlayLoaded b i w h) = False"
| "is_change (OverlayFailed b i) = False"

fun first_completion :: "nat \<Rightarrow> nat \<Rightarrow> overlay_event list \<Rightarrow> (nat \<times> nat) outcome" where
  "first_completion b i [] = Pending"
| "first_completion b i (OverlaysChanged ovs # es) = first_completion b i es"
| "first_completion b i (OverlayLoaded b' i' w h # es) =
     (if b' = b \<and> i' = i then Fulfilled (w, h) else first_completion b i es)"
| "first_completion b i (OverlayFailed b' i' # es) =
     (if b' = b \<and> i' = i then Rejected else first_completion b i es)"

definition image_of :: "string \<times> string \<Rightarrow> nat \<times> nat \<Rightarrow> string \<times> html_image" where
  "image_of p d = (fst p, \<lparr>img_src = snd p, naturalWidth = fst d, naturalHeight = snd d\<rparr>)"

fun decoded :: "string \<times> string \<Rightarrow> (nat \<times> nat) outcome \<Rightarrow> (string \<times> html_image) outcome" where
  "decoded p Pending = Pending"
| "decoded p (Fulfilled d) = Fulfilled (image_of p d)"
| "decoded p Rejected = Rejected"

definition superseded :: "overlay_loader \<Rightarrow> bool" where
  "superseded st =
     ((\<forall>k. batch_current st = Some k \<longrightarrow> k < length (batches st)) \<and>
      (\<forall>k<length (batches st). batch_current st \<noteq> Some k \<longrightarrow> ob_cancelled (batches st ! k)))"

section \<open>Hit-test\<close>

lemma pick_loop_append:
  "pick_loop x y best (xs @ ys) = pick_loop x y (pick_loop x y best xs) ys"
  by (induction xs arbitrary: best) (simp_all add: Let_def)

lemma pick_loop_keep:
  "\<forall>v\<in>set post. b_dist b \<le> center_dist x y v \<Longrightarrow> pick_loop x y (Some b) post = Some b"
  by (induction post) (simp_all add: Let_def)

lemma pick_loop_above:
  "\<forall>v\<in>set pre. d < center_dist x y v \<Longrightarrow>
   (case best of None \<Rightarrow> True | Some b \<Rightarrow> d < b_dist b) \<Longrightarrow>
   (case pick_loop x y best pre of None \<Rightarrow> True | Some b \<Rightarrow> d < b_dist b)"
  by (induction pre arbitrary: best) (simp_all add: Let_def)

lemma pick_loop_first_min:
  assumes pre: "\<forall>v\<in>set pre. center_dist x y ov < center_dist x y v"
      and post: "\<forall>v\<in>set post. center_dist x y ov \<le> center_dist x y v"
  shows "pick_loop x y None (pre @ ov # post) =
         Some \<lparr>b_id = o_id ov, b_dist = center_dist x y ov\<rparr>"
proof -
  let ?d = "center_dist x y ov"
  have above: "case pick_loop x y None pre of None \<Rightarrow> True | Some b \<Rightarrow> ?d < b_dist b"
    using pick_loop_above [OF pre, of None] by simp
  have step: "pick_loop x y (pick_loop x y None pre) [ov] = Some \<lparr>b_id = o_id ov, b_dist = ?d\<rparr>"
    using above by (cases "pick_loop x y None pre") (simp_all add: Let_def)
  have "pick_loop x y None (pre @ ov # post) =
        pick_loop x y (pick_loop x y (pick_loop x y None pre) [ov]) post"
    using pick_loop_append [of x y None pre "ov # post"]
          pick_loop_append [of x y "pick_loop x y None pre" "[ov]" post] by simp
  also have "\<dots> = Some \<lparr>b_id = o_id ov, b_dist = ?d\<rparr>"
    unfolding step using post by (intro pick_loop_keep) simp
  finally show ?thesis .
qed

lemma first_min_split:
  assumes "ovs \<noteq> []"
  shows "\<exists>pre ov post. ovs = pre @ ov # post \<and>
           center_dist x y ov = Min (center_dist x y ` set ovs) \<and>
           (\<forall>v\<in>set pre. center_dist x y ov < center_dist x y v) \<and>
           (\<forall>v\<in>set post. center_dist x y ov \<le> center_dist x y v)"
proof -
  let ?m = "Min (center_dist x y ` set ovs)"
  have fin: "finite (center_dist x y ` set ovs)" and ne: "center_dist x y ` set ovs \<noteq> {}"
    using assms by simp_all
  have "?m \<in> center_dist x y ` set ovs" using Min_in [OF fin ne] .
  then have "\<exists>v\<in>set ovs. center_dist x y v = ?m" by auto
  then obtain pre ov post where sp: "ovs = pre @ ov # post" and m: "center_dist x y ov = ?m"
      and first: "\<forall>v\<in>set pre. center_dist x y v \<noteq> ?m"
    using split_list_first_prop [of ovs "\<lambda>v. center_dist x y v = ?m"] by blast
  have le: "?m \<le> center_dist x y v" if "v \<in> set ovs" for v
    using that fin by (intro Min_le) auto
  have "center_dist x y ov < center_dist x y v" if "v \<in> set pre" for v
  proof -
    have "v \<in> set ovs" using that sp by simp
    then have "?m \<le> center_dist x y v" by (rule le)
    moreover have "center_dist x y v \<noteq> ?m" using first that by blast
    ultimately show ?thesis unfolding m by linarith
  qed
  moreover have "center_dist x y ov \<le> center_dist x y v" if "v \<in> set post" for v
  proof -
    have "v \<in> set ovs" using that sp by simp
    then show ?thesis unfolding m by (rule le)
  qed
  ultimately show ?thesis using sp m by blast
qed

lemma sqrt_less_numeral: "0 \<le> c \<Longrightarrow> (sqrt a < c) = (a < c * c)"
proof -
  assume c: "0 \<le> c"
  have "sqrt (c * c) = c" using c by simp
  then have "(sqrt a < c) = (sqrt a < sqrt (c * c))" by simp
  also have "\<dots> = (a < c * c)" by (rule real_sqrt_less_iff)
  finally show ?thesis .
qed






section \<open>Dragging\<close>

lemma find_Some_first:
  "find P xs = Some a \<Longrightarrow> \<exists>k<length xs. xs ! k = a \<and> P a \<and> (\<forall>j<k. \<not> P (xs ! j))"
  by (auto simp: find_Some_iff)

lemma onPointerMove_drag: "drag (onPointerMove e st) = drag st"
  by (simp add: onPointerMove_def Let_def split: option.splits)

lemma onPointerMove_overlays:
  "drag st = Some d \<Longrightarrow>
   overlays (onPointerMove e st) = map (move_to d (getPointerPos e)) (overlays st)"
  by (simp add: onPointerMove_def Let_def move_to_def)

lemma move_to_twice: "move_to d p (move_to d q ov) = move_to d p ov"
  by (simp add: move_to_def)

lemma run_moves_drag: "drag (run_moves es st) = drag st"
  unfolding run_moves_def by (induction es arbitrary: st) (simp_all add: onPointerMove_drag)

lemma run_moves_snoc: "run_moves (es @ [e]) st = onPointerMove e (run_moves es st)"
  by (simp add: run_moves_def)

lemma run_moves_overlays:
  "drag st = Some d \<Longrightarrow> es \<noteq> [] \<Longrightarrow>
   overlays (run_moves es st) = map (move_to d (getPointerPos (last es))) (overlays st)"
proof (induction es rule: rev_induct)
  case Nil
  then show ?case by simp
next
  case (snoc e es)
  have d: "drag (run_moves es st) = Some d" using snoc.prems(1) by (simp add: run_moves_drag)
  show ?case
  proof (cases "es = []")
    case True
    then show ?thesis using snoc.prems(1) by (simp add: run_moves_def onPointerMove_overlays)
  next
    case False
    then have "overlays (run_moves es st) = map (move_to d (getPointerPos (last es))) (overlays st)"
      using snoc by simp
    then show ?thesis
      by (simp add: run_moves_snoc onPointerMove_overlays [OF d] move_to_twice comp_def)
  qed
qed

lemma pickOverlay_Some_mem:
  assumes "pickOverlay ovs x y = Some i"
  shows "\<exists>ov\<in>set ovs. o_id ov = i"
proof -
  have ne: "ovs \<noteq> []" using assms by (auto simp: pickOverlay_def)
  obtain pre ov post where sp: "ovs = pre @ ov # post"
      and pre: "\<forall>v\<in>set pre. center_dist x y ov < center_dist x y v"
      and post: "\<forall>v\<in>set post. center_dist x y ov \<le> center_dist x y v"
    using first_min_split [OF ne, of x y] by blast
  have "pick_loop x y None ovs = Some \<lparr>b_id = o_id ov, b_dist = center_dist x y ov\<rparr>"
    unfolding sp using pre post by (rule pick_loop_first_min)
  then have "i = o_id ov"
    using assms ne by (simp add: pickOverlay_def split: if_splits)
  then show ?thesis using sp by auto
qed

lemma onPointerDown_hit:
  assumes hit: "pickOverlay (overlays st) (fst (getPointerPos e)) (snd (getPointerPos e)) = Some i"
      and ne: "i \<noteq> []"
  shows "overlays (onPointerDown e st) = overlays st \<and>
         (\<exists>k<length (overlays st).
            o_id (overlays st ! k) = i \<and>
            (\<forall>j<k. o_id (overlays st ! j) \<noteq> i) \<and>
            drag (onPointerDown e st) =
              Some \<lparr>drag_id = i,
                    offsetX = fst (getPointerPos e) - o_x (overlays st ! k),
                    offsetY = snd (getPointerPos e) - o_y (overlays st ! k)\<rparr>)"
proof -
  let ?p = "getPointerPos e"
  have "\<exists>ov\<in>set (overlays st). o_id ov = i" using hit by (rule pickOverlay_Some_mem)
  then have "find (\<lambda>v. o_id v = i) (overlays st) \<noteq> None" by (auto simp: find_None_iff)
  then obtain ov where f: "find (\<lambda>v. o_id v = i) (overlays st) = Some ov" by blast
  have d: "drag (onPointerDown e st) =
      Some \<lparr>drag_id = i, offsetX = fst ?p - o_x ov, offsetY = snd ?p - o_y ov\<rparr>"
    using hit ne f by (simp add: onPointerDown_def Let_def)
  have ovs: "overlays (onPointerDown e st) = overlays st"
    using hit ne f by (simp add: onPointerDown_def Let_def)
  obtain k where "k < length (overlays st)" "overlays st ! k = ov" "o_id ov = i"
      "\<forall>j<k. o_id (overlays st ! j) \<noteq> i"
    using find_Some_first [OF f] by blast
  then show ?thesis using d ovs by auto
qed

text \<open>
  Claim C4. Ids are unique in the collection (the data model's invariant). When the
  hit-test at the pointer-down \<open>e0\<close> gives a (non-empty) id \<open>i\<close>, a drag starts: the
  overlay hit is at some index \<open>k\<close>, and the drag state \<open>d\<close> holds its id and, as grab
  offset, the pointer position minus that overlay's position. Along every run \<open>es\<close> of
  pointer-move events that follows, the drag state stays \<open>d\<close> and the collection keeps
  its length; after the last move of a non-empty run the overlay at \<open>k\<close> is the original
  one with its position set to the pointer position minus the offset, and the overlay at
  every other index is the original one.
\<close>

theorem drag_invariant:
  assumes uniq: "distinct (map o_id (overlays st))"
      and hit: "pickOverlay (overlays st) (fst (getPointerPos e0)) (snd (getPointerPos e0)) = Some i"
      and ne: "i \<noteq> []"
  shows "\<exists>k d. k < length (overlays st) \<and> o_id (overlays st ! k) = i \<and>
           drag (onPointerDown e0 st) = Some d \<and>
           drag_id d = i \<and>
           offsetX d = fst (getPointerPos e0) - o_x (overlays st ! k) \<and>
           offsetY d = snd (getPointerPos e0) - o_y (overlays st ! k) \<and>
           (\<forall>es. drag (run_moves es (onPointerDown e0 st)) = Some d \<and>
                 length (overlays (run_moves es (onPointerDown e0 st))) = length (overlays st) \<and>
                 (es \<noteq> [] \<longrightarrow>
                    overlays (run_moves es (onPointerDown e0 st)) ! k =
                      (overlays st ! k)\<lparr>o_x := fst (getPointerPos (last es)) - offsetX d,
                                         o_y := snd (getPointerPos (last es)) - offsetY d\<rparr> \<and>
                    (\<forall>j<length (overlays st). j \<noteq> k \<longrightarrow>
                        overlays (run_moves es (onPointerDown e0 st)) ! j = overlays st ! j)))"
proof -
  let ?st1 = "onPointerDown e0 st"
  from onPointerDown_hit [OF hit ne]
  obtain k where k: "k < length (overlays st)"
      and ovs: "overlays ?st1 = overlays st"
      and idk: "o_id (overlays st ! k) = i"
      and started: "drag ?st1 =
          Some \<lparr>drag_id = i,
                offsetX = fst (getPointerPos e0) - o_x (overlays st ! k),
                offsetY = snd (getPointerPos e0) - o_y (overlays st ! k)\<rparr>"
    by blast
  let ?d = "\<lparr>drag_id = i,
             offsetX = fst (getPointerPos e0) - o_x (overlays st ! k),
             offsetY = snd (getPointerPos e0) - o_y (overlays st ! k)\<rparr>"
  have other: "o_id (overlays st ! j) \<noteq> i" if "j < length (overlays st)" "j \<noteq> k" for j
    using uniq that k idk by (metis distinct_conv_nth length_map nth_map)
  have moves: "drag (run_moves es ?st1) = Some ?d \<and>
        length (overlays (run_moves es ?st1)) = length (overlays st) \<and>
        (es \<noteq> [] \<longrightarrow>
           overlays (run_moves es ?st1) ! k =
             (overlays st ! k)\<lparr>o_x := fst (getPointerPos (last es)) - offsetX ?d,
                                o_y := snd (getPointerPos (last es)) - offsetY ?d\<rparr> \<and>
           (\<forall>j<length (overlays st). j \<noteq> k \<longrightarrow> overlays (run_moves es ?st1) ! j = overlays st ! j))"
    for es
  proof (cases "es = []")
    case True
    then show ?thesis using started ovs by (simp add: run_moves_def)
  next
    case False
    have eq: "overlays (run_moves es ?st1) = map (move_to ?d (getPointerPos (last es))) (overlays st)"
      using run_moves_overlays [OF started False] ovs by simp
    show ?thesis
      using k idk other by (simp add: eq run_moves_drag started move_to_def)
  qed
  show ?thesis
    using k idk started moves by (intro exI [of _ k] exI [of _ ?d]) simp
qed

theorem drag_invariant_witness:
  "overlays (run_moves
      [\<lparr>clientX = 400, clientY = 500, rect_left = 0, rect_top = 0\<rparr>,
       \<lparr>clientX = 410, clientY = 520, rect_left = 0, rect_top = 0\<rparr>]
      (onPointerDown \<lparr>clientX = 330, clientY = 340, rect_left = 0, rect_top = 0\<rparr>
         \<lparr>overlays = addText ''txt_1'' (addOverlay ''ov_1'' ''/overlays/hat.png'' []),
          drag = None, selectedId = None\<rparr>))
   = [\<lparr>o_id = ''ov_1'', o_kind = Image, o_x = 380, o_y = 480, o_scale = 0.6,
        o_rotation = 0, o_src = Some ''/overlays/hat.png'', o_text = None\<rparr>,
      \<lparr>o_id = ''txt_1'', o_kind = Text, o_x = 300, o_y = 80, o_scale = 1,
        o_rotation = 0, o_src = None, o_text = Some ''LOL''\<rparr>] \<and>
   drag (run_moves
      [\<lparr>clientX = 400, clientY = 500, rect_left = 0, rect_top = 0\<rparr>,
       \<lparr>clientX = 410, clientY = 520, rect_left = 0, rect_top = 0\<rparr>]
      (onPointerDown \<lparr>clientX = 330, clientY = 340, rect_left = 0, rect_top = 0\<rparr>
         \<lparr>overlays = addText ''txt_1'' (addOverlay ''ov_1'' ''/overlays/hat.png'' []),
          drag = None, selectedId = None\<rparr>))
   = Some \<lparr>drag_id = ''ov_1'', offsetX = 30, offsetY = 40\<rparr>"
proof -
  let ?st = "\<lparr>overlays = addText ''txt_1'' (addOverlay ''ov_1'' ''/overlays/hat.png'' []),
              drag = None, selectedId = None\<rparr>"
  let ?e0 = "\<lparr>clientX = 330, clientY = 340, rect_left = 0, rect_top = 0\<rparr>"
  let ?es = "[\<lparr>clientX = 400, clientY = 500, rect_left = 0, rect_top = 0\<rparr>,
              \<lparr>clientX = 410, clientY = 520, rect_left = 0, rect_top = 0\<rparr>]"
  have uniq: "distinct (map o_id (overlays ?st))" by (simp add: addText_def addOverlay_def)
  have hit: "pickOverlay (overlays ?st) (fst (getPointerPos ?e0)) (snd (getPointerPos ?e0)) = Some ''ov_1''"
    by (simp add: pickOverlay_def getPointerPos_def center_dist_def
        addText_def addOverlay_def sqrt_less_numeral)
  have ne: "''ov_1'' \<noteq> []" by simp
  obtain k d where k: "k < length (overlays ?st)" "o_id (overlays ?st ! k) = ''ov_1''"
      and d: "drag_id d = ''ov_1''"
         "offsetX d = fst (getPointerPos ?e0) - o_x (overlays ?st ! k)"
         "offsetY d = snd (getPointerPos ?e0) - o_y (overlays ?st ! k)"
      and mv: "\<And>es. es \<noteq> [] \<Longrightarrow>
             overlays (run_moves es (onPointerDown ?e0 ?st)) ! k =
               (overlays ?st ! k)\<lparr>o_x := fst (getPointerPos (last es)) - offsetX d,
                                  o_y := snd (getPointerPos (last es)) - offsetY d\<rparr> \<and>
             (\<forall>j<length (overlays ?st). j \<noteq> k \<longrightarrow>
                 overlays (run_moves es (onPointerDown ?e0 ?st)) ! j = overlays ?st ! j)"
      and len: "\<And>es. length (overlays (run_moves es (onPointerDown ?e0 ?st))) = length (overlays ?st)"
      and dr: "\<And>es. drag (run_moves es (onPointerDown ?e0 ?st)) = Some d"
    using drag_invariant [OF uniq hit ne] by blast
  have k0: "k = 0" using k by (auto simp: addText_def addOverlay_def less_Suc_eq)
  have dv: "d = \<lparr>drag_id = ''ov_1'', offsetX = 30, offsetY = 40\<rparr>"
    using d k0 by (cases d) (simp add: addText_def addOverlay_def getPointerPos_def)
  have "length (overlays (run_moves ?es (onPointerDown ?e0 ?st))) = 2"
    using len [of ?es] by (simp add: addText_def addOverlay_def)
  moreover have "overlays (run_moves ?es (onPointerDown ?e0 ?st)) ! 0 =
      \<lparr>o_id = ''ov_1'', o_kind = Image, o_x = 380, o_y = 480, o_scale = 0.6,
        o_rotation = 0, o_src = Some ''/overlays/hat.png'', o_text = None\<rparr>"
    using mv [of ?es] k0 dv by (simp add: addText_def addOverlay_def getPointerPos_def)
  moreover have "overlays (run_moves ?es (onPointerDown ?e0 ?st)) ! 1 =
      \<lparr>o_id = ''txt_1'', o_kind = Text, o_x = 300, o_y = 80, o_scale = 1,
        o_rotation = 0, o_src = None, o_text = Some ''LOL''\<rparr>"
    using mv [of ?es] k0 by (simp add: addText_def addOverlay_def getPointerPos_def)
  ultimately show ?thesis
    using dr [of ?es] dv by (simp add: list_eq_iff_nth_eq less_Suc_eq numeral_2_eq_2)
qed

text \<open>
  Claim C9. A pointer-move received while the drag state names an id that no overlay of
  the collection carries leaves the collection, and the whole state, as it was.
\<close>

theorem onPointerMove_vanished:
  assumes "drag st = Some d" and "drag_id d \<notin> o_id ` set (overlays st)"
  shows "overlays (onPointerMove e st) = overlays st \<and> onPointerMove e st = st"
proof -
  have "o_id ov \<noteq> drag_id d" if "ov \<in> set (overlays st)" for ov
    using assms(2) that by (metis imageI)
  then have "map (move_to d (getPointerPos e)) (overlays st) = overlays st"
    by (intro map_idI) (simp add: move_to_def)
  then have "overlays (onPointerMove e st) = overlays st"
    using onPointerMove_overlays [OF assms(1), of e] by simp
  moreover have "onPointerMove e st = st\<lparr>overlays := overlays (onPointerMove e st)\<rparr>"
    by (simp add: onPointerMove_def Let_def split: option.splits)
  ultimately show ?thesis by simp
qed

theorem onPointerMove_vanished_witness:
  "onPointerMove \<lparr>clientX = 500, clientY = 400, rect_left = 10, rect_top = 20\<rparr>
     \<lparr>overlays = addText ''txt_1'' [],
      drag = Some \<lparr>drag_id = ''ov_1'', offsetX = 30, offsetY = 40\<rparr>,
      selectedId = Some ''ov_1''\<rparr>
   = \<lparr>overlays = addText ''txt_1'' [],
      drag = Some \<lparr>drag_id = ''ov_1'', offsetX = 30, offsetY = 40\<rparr>,
      selectedId = Some ''ov_1''\<rparr>"
  using onPointerMove_vanished
    [of "\<lparr>overlays = addText ''txt_1'' [],
         drag = Some \<lparr>drag_id = ''ov_1'', offsetX = 30, offsetY = 40\<rparr>,
         selectedId = Some ''ov_1''\<rparr>"
        "\<lparr>drag_id = ''ov_1'', offsetX = 30, offsetY = 40\<rparr>"
        "\<lparr>clientX = 500, clientY = 400, rect_left = 10, rect_top = 20\<rparr>"]
  by (simp add: addText_def)

section \<open>Wheel scaling\<close>

lemma clamp_range: "mn \<le> mx \<Longrightarrow> mn \<le> clamp n mn mx \<and> clamp n mn mx \<le> mx"
  by (simp add: clamp_def)

lemma clamp_shrink:
  assumes f: "0 \<le> f" "f \<le> 1" and mn: "0 \<le> mn" and t: "t \<le> max mn b"
  shows "clamp (t * f) mn mx \<le> max mn (b * f)"
proof -
  have "t * f \<le> max mn b * f" using t f(1) by (rule mult_right_mono)
  also have "\<dots> = max (mn * f) (b * f)" using f(1) by (simp add: max_mult_distrib_right)
  also have "\<dots> \<le> max mn (b * f)"
  proof -
    have "mn * f \<le> mn * 1" using f(2) mn by (rule mult_left_mono)
    then show ?thesis by (simp add: max_def)
  qed
  finally have "t * f \<le> max mn (b * f)" .
  then show ?thesis by (auto simp: clamp_def max_def min_def split: if_splits)
qed

lemma clamp_grow:
  assumes f: "1 \<le> f" and mx: "0 \<le> mx" and t: "min mx b \<le> t"
  shows "min mx (b * f) \<le> clamp (t * f) mn mx"
proof -
  have f0: "0 \<le> f" using f by simp
  have "mx * 1 \<le> mx * f" using f mx by (rule mult_left_mono)
  then have "min mx (b * f) \<le> min (mx * f) (b * f)" by (simp add: min_def)
  also have "\<dots> = min mx b * f" using f0 by (simp add: min_mult_distrib_right)
  also have "\<dots> \<le> t * f" using t f0 by (rule mult_right_mono)
  finally have "min mx (b * f) \<le> t * f" .
  then show ?thesis by (auto simp: clamp_def max_def min_def split: if_splits)
qed

lemma pow_092: "4 * (0.92::real) ^ 36 \<le> 0.2"
  by (simp add: power_numeral_reduce)

lemma pow_108: "(4::real) \<le> 0.2 * 1.08 ^ 39"
  by (simp add: power_numeral_reduce)

lemma wheel_scale_out: "0 < deltaY e \<Longrightarrow> wheel_scale e s = clamp (s * 0.92) 0.2 4"
  by (simp add: wheel_scale_def)

lemma wheel_scale_in: "deltaY e \<le> 0 \<Longrightarrow> wheel_scale e s = clamp (s * 1.08) 0.2 4"
  by (simp add: wheel_scale_def sgn_if)

lemma wheel_scale_range: "0.2 \<le> wheel_scale e s \<and> wheel_scale e s \<le> 4"
  unfolding wheel_scale_def by (rule clamp_range) simp

lemma scales_after_snoc: "scales_after (es @ [e]) s = wheel_scale e (scales_after es s)"
  by (simp add: scales_after_def)

lemma scales_after_range: "es \<noteq> [] \<Longrightarrow> 0.2 \<le> scales_after es s \<and> scales_after es s \<le> 4"
  by (cases es rule: rev_cases) (simp_all only: scales_after_snoc wheel_scale_range simp_thms)

lemma zoom_out_upper:
  "\<forall>e\<in>set es. 0 < deltaY e \<Longrightarrow> length es = Suc n \<Longrightarrow>
   scales_after es s \<le> max 0.2 (4 * 0.92 ^ n)"
proof (induction es arbitrary: n rule: rev_induct)
  case Nil
  then show ?case by simp
next
  case (snoc e es)
  have e: "0 < deltaY e" using snoc.prems(1) by simp
  show ?case
  proof (cases n)
    case 0
    have "scales_after (es @ [e]) s \<le> 4" using scales_after_range [of "es @ [e]" s] by simp
    then show ?thesis unfolding 0 by (simp add: max_def)
  next
    case (Suc m)
    then have ih: "scales_after es s \<le> max 0.2 (4 * 0.92 ^ m)"
      using snoc by simp
    have "clamp (scales_after es s * 0.92) 0.2 4 \<le> max 0.2 ((4 * 0.92 ^ m) * 0.92)"
      using _ _ _ ih by (rule clamp_shrink) simp_all
    then show ?thesis
      unfolding Suc scales_after_snoc wheel_scale_out [OF e] by (simp only: power_Suc2 mult.assoc)
  qed
qed

lemma zoom_in_lower:
  "\<forall>e\<in>set es. deltaY e \<le> 0 \<Longrightarrow> length es = Suc n \<Longrightarrow>
   min 4 (0.2 * 1.08 ^ n) \<le> scales_after es s"
proof (induction es arbitrary: n rule: rev_induct)
  case Nil
  then show ?case by simp
next
  case (snoc e es)
  have e: "deltaY e \<le> 0" using snoc.prems(1) by simp
  show ?case
  proof (cases n)
    case 0
    have "0.2 \<le> scales_after (es @ [e]) s" using scales_after_range [of "es @ [e]" s] by simp
    then show ?thesis unfolding 0 by (simp add: min_def)
  next
    case (Suc m)
    then have ih: "min 4 (0.2 * 1.08 ^ m) \<le> scales_after es s"
      using snoc by simp
    have "min 4 ((0.2 * 1.08 ^ m) * 1.08) \<le> clamp (scales_after es s * 1.08) 0.2 4"
      using _ _ ih by (rule clamp_grow) simp_all
    then show ?thesis
      unfolding Suc scales_after_snoc wheel_scale_in [OF e] by (simp only: power_Suc2 mult.assoc)
  qed
qed

lemma zoom_out_exact:
  assumes "\<forall>e\<in>set es. 0 < deltaY e" "37 \<le> length es"
  shows "scales_after es s = 0.2"
proof -
  obtain n where n: "length es = Suc n" "36 \<le> n"
    using assms(2) by (cases "length es") auto
  have "(0.92::real) ^ n \<le> 0.92 ^ 36"
    using n(2) by (intro power_decreasing) simp_all
  then have "4 * (0.92::real) ^ n \<le> 4 * 0.92 ^ 36" by (intro mult_left_mono) simp_all
  then have "4 * (0.92::real) ^ n \<le> 0.2" using pow_092 by (rule order_trans)
  then have "max 0.2 (4 * (0.92::real) ^ n) = 0.2" by (rule max_absorb1)
  then have "scales_after es s \<le> 0.2"
    using zoom_out_upper [OF assms(1) n(1), of s] by (simp only:)
  moreover have "0.2 \<le> scales_after es s"
  proof -
    have "es \<noteq> []" using n(1) by auto
    then show ?thesis by (rule scales_after_range [THEN conjunct1])
  qed
  ultimately show ?thesis by (rule order_antisym)
qed

lemma zoom_in_exact:
  assumes "\<forall>e\<in>set es. deltaY e \<le> 0" "40 \<le> length es"
  shows "scales_after es s = 4"
proof -
  obtain n where n: "length es = Suc n" "39 \<le> n"
    using assms(2) by (cases "length es") auto
  have "(1.08::real) ^ 39 \<le> 1.08 ^ n"
    using n(2) by (intro power_increasing) simp_all
  then have "0.2 * (1.08::real) ^ 39 \<le> 0.2 * 1.08 ^ n" by (intro mult_left_mono) simp_all
  with pow_108 have "(4::real) \<le> 0.2 * 1.08 ^ n" by (rule order_trans)
  then have "min 4 (0.2 * (1.08::real) ^ n) = 4" by (rule min_absorb1)
  then have "4 \<le> scales_after es s"
    using zoom_in_lower [OF assms(1) n(1), of s] by (simp only:)
  moreover have "scales_after es s \<le> 4"
  proof -
    have "es \<noteq> []" using n(1) by auto
    then show ?thesis by (rule scales_after_range [THEN conjunct2])
  qed
  ultimately show ?thesis by (rule order_antisym [rotated])
qed

lemma onWheel_selectedId: "selectedId (onWheel e st) = selectedId st"
  by (simp add: onWheel_def Let_def)

lemma onWheel_scale:
  "selectedId st = Some sid \<Longrightarrow> sid \<noteq> [] \<Longrightarrow> \<not> shiftKey e \<Longrightarrow>
   overlays (onWheel e st) =
     map (\<lambda>ov. if o_id ov = sid then ov\<lparr>o_scale := wheel_scale e (o_scale ov)\<rparr> else ov) (overlays st)"
  by (auto simp: onWheel_def Let_def truthy_def wheel_scale_def)

lemma run_wheels_snoc: "run_wheels (es @ [e]) st = onWheel e (run_wheels es st)"
  by (simp add: run_wheels_def)

lemma run_wheels_selectedId: "selectedId (run_wheels es st) = selectedId st"
  by (induction es rule: rev_induct) (simp_all add: run_wheels_snoc onWheel_selectedId run_wheels_def)

lemma run_wheels_scale:
  assumes "selectedId st = Some sid" "sid \<noteq> []" "\<forall>e\<in>set es. \<not> shiftKey e"
  shows "overlays (run_wheels es st) =
     map (\<lambda>ov. if o_id ov = sid then ov\<lparr>o_scale := scales_after es (o_scale ov)\<rparr> else ov) (overlays st)"
  using assms(3)
proof (induction es rule: rev_induct)
  case Nil
  show ?case by (simp add: run_wheels_def scales_after_def map_idI)
next
  case (snoc e es)
  have sel: "selectedId (run_wheels es st) = Some sid"
    using assms(1) by (simp add: run_wheels_selectedId)
  have ns: "\<not> shiftKey e" using snoc.prems by simp
  have ih: "overlays (run_wheels es st) =
     map (\<lambda>ov. if o_id ov = sid then ov\<lparr>o_scale := scales_after es (o_scale ov)\<rparr> else ov) (overlays st)"
    using snoc by simp
  show ?case
    unfolding run_wheels_snoc onWheel_scale [OF sel assms(2) ns] ih
    by (simp add: scales_after_snoc comp_def)
qed

text \<open>
  Claim C5. An overlay is selected (\<open>sid\<close>, a non-empty id). One wheel event without
  the shift key maps the collection by setting the scale of the overlay with id \<open>sid\<close>
  to \<open>clamp (scale * (if direction > 0 then 0.92 else 1.08)) 0.2 4\<close> and leaving every
  other overlay as it is. Along a run \<open>es\<close> of such events the collection keeps its
  length and every overlay with another id is untouched; when all events of the run zoom
  out (\<open>deltaY > 0\<close>), the selected overlay's scale is at least 0.2 after one event or
  more and exactly 0.2 after 37 events or more, whatever the scale was at the start;
  when all zoom in (\<open>deltaY < 0\<close>), it is at most 4 after one event or more and exactly
  4 after 40 events or more.
\<close>

theorem wheel_scaling:
  assumes sel: "selectedId st = Some sid" "sid \<noteq> []"
      and ns: "\<forall>e\<in>set es. \<not> shiftKey e"
  shows "(\<forall>e. \<not> shiftKey e \<longrightarrow>
            overlays (onWheel e st) =
              map (\<lambda>ov. if o_id ov = sid
                         then ov\<lparr>o_scale :=
                                   clamp (o_scale ov * (if sgn (deltaY e) > 0 then 0.92 else 1.08)) 0.2 4\<rparr>
                         else ov)
                  (overlays st)) \<and>
         length (overlays (run_wheels es st)) = length (overlays st) \<and>
         (\<forall>k<length (overlays st).
            if o_id (overlays st ! k) \<noteq> sid
            then overlays (run_wheels es st) ! k = overlays st ! k
            else ((\<forall>e\<in>set es. 0 < deltaY e) \<longrightarrow>
                    (1 \<le> length es \<longrightarrow> 0.2 \<le> o_scale (overlays (run_wheels es st) ! k)) \<and>
                    (37 \<le> length es \<longrightarrow> o_scale (overlays (run_wheels es st) ! k) = 0.2)) \<and>
                 ((\<forall>e\<in>set es. deltaY e < 0) \<longrightarrow>
                    (1 \<le> length es \<longrightarrow> o_scale (overlays (run_wheels es st) ! k) \<le> 4) \<and>
                    (40 \<le> length es \<longrightarrow> o_scale (overlays (run_wheels es st) ! k) = 4)))"
proof (intro conjI allI impI)
  fix e :: wheel_event assume "\<not> shiftKey e"
  then show "overlays (onWheel e st) =
      map (\<lambda>ov. if o_id ov = sid
                 then ov\<lparr>o_scale :=
                           clamp (o_scale ov * (if sgn (deltaY e) > 0 then 0.92 else 1.08)) 0.2 4\<rparr>
                 else ov)
          (overlays st)"
    using onWheel_scale [OF sel] by (simp only: wheel_scale_def)
next
  show "length (overlays (run_wheels es st)) = length (overlays st)"
    by (simp add: run_wheels_scale [OF sel ns])
next
  fix k assume k: "k < length (overlays st)"
  let ?ov = "overlays st ! k"
  have nth: "overlays (run_wheels es st) ! k =
      (if o_id ?ov = sid then ?ov\<lparr>o_scale := scales_after es (o_scale ?ov)\<rparr> else ?ov)"
    using k by (simp add: run_wheels_scale [OF sel ns])
  show "if o_id ?ov \<noteq> sid
        then overlays (run_wheels es st) ! k = ?ov
        else ((\<forall>e\<in>set es. 0 < deltaY e) \<longrightarrow>
                (1 \<le> length es \<longrightarrow> 0.2 \<le> o_scale (overlays (run_wheels es st) ! k)) \<and>
                (37 \<le> length es \<longrightarrow> o_scale (overlays (run_wheels es st) ! k) = 0.2)) \<and>
             ((\<forall>e\<in>set es. deltaY e < 0) \<longrightarrow>
                (1 \<le> length es \<longrightarrow> o_scale (overlays (run_wheels es st) ! k) \<le> 4) \<and>
                (40 \<le> length es \<longrightarrow> o_scale (overlays (run_wheels es st) ! k) = 4))"
  proof (cases "o_id ?ov = sid")
    case False
    then show ?thesis using nth by simp
  next
    case True
    have sc: "o_scale (overlays (run_wheels es st) ! k) = scales_after es (o_scale ?ov)"
      using nth True by simp
    have ne: "1 \<le> length es \<Longrightarrow> es \<noteq> []" by auto
    have out: "37 \<le> length es \<Longrightarrow> scales_after es (o_scale ?ov) = 0.2"
      if "\<forall>e\<in>set es. 0 < deltaY e"
      using that by (rule zoom_out_exact)
    have inn: "40 \<le> length es \<Longrightarrow> scales_after es (o_scale ?ov) = 4"
      if "\<forall>e\<in>set es. deltaY e < 0"
    proof (rule zoom_in_exact)
      show "\<forall>e\<in>set es. deltaY e \<le> 0" using that by fastforce
    qed
    show ?thesis
      unfolding sc using True out inn scales_after_range [OF ne, of "o_scale ?ov"]
      by (simp only: simp_thms if_False) blast
  qed
qed

theorem wheel_scaling_witness:
  "overlays (onWheel \<lparr>deltaY = - 53, shiftKey = False\<rparr>
      \<lparr>overlays = addText ''txt_1'' (addOverlay ''ov_1'' ''/overlays/hat.png'' []),
       drag = None, selectedId = Some ''ov_1''\<rparr>)
   = [\<lparr>o_id = ''ov_1'', o_kind = Image, o_x = 300, o_y = 300, o_scale = 0.648,
        o_rotation = 0, o_src = Some ''/overlays/hat.png'', o_text = None\<rparr>,
      \<lparr>o_id = ''txt_1'', o_kind = Text, o_x = 300, o_y = 80, o_scale = 1,
        o_rotation = 0, o_src = None, o_text = Some ''LOL''\<rparr>] \<and>
   o_scale (overlays (run_wheels (replicate 37 \<lparr>deltaY = 53, shiftKey = False\<rparr>)
      \<lparr>overlays = addText ''txt_1'' (addOverlay ''ov_1'' ''/overlays/hat.png'' []),
       drag = None, selectedId = Some ''ov_1''\<rparr>) ! 0) = 0.2 \<and>
   o_scale (overlays (run_wheels (replicate 40 \<lparr>deltaY = - 53, shiftKey = False\<rparr>)
      \<lparr>overlays = addText ''txt_1'' (addOverlay ''ov_1'' ''/overlays/hat.png'' []),
       drag = None, selectedId = Some ''ov_1''\<rparr>) ! 0) = 4 \<and>
   overlays (run_wheels (replicate 37 \<lparr>deltaY = 53, shiftKey = False\<rparr>)
      \<lparr>overlays = addText ''txt_1'' (addOverlay ''ov_1'' ''/overlays/hat.png'' []),
       drag = None, selectedId = Some ''ov_1''\<rparr>) ! 1
   = \<lparr>o_id = ''txt_1'', o_kind = Text, o_x = 300, o_y = 80, o_scale = 1,
       o_rotation = 0, o_src = None, o_text = Some ''LOL''\<rparr>"
proof -
  let ?st = "\<lparr>overlays = addText ''txt_1'' (addOverlay ''ov_1'' ''/overlays/hat.png'' []),
              drag = None, selectedId = Some ''ov_1''\<rparr>"
  let ?out = "replicate 37 \<lparr>deltaY = 53, shiftKey = False\<rparr>"
  let ?in = "replicate 40 \<lparr>deltaY = - 53, shiftKey = False\<rparr>"
  have sel: "selectedId ?st = Some ''ov_1''" "''ov_1'' \<noteq> []" by simp_all
  have ovs: "overlays ?st =
      [\<lparr>o_id = ''ov_1'', o_kind = Image, o_x = 300, o_y = 300, o_scale = 0.6,
         o_rotation = 0, o_src = Some ''/overlays/hat.png'', o_text = None\<rparr>,
       \<lparr>o_id = ''txt_1'', o_kind = Text, o_x = 300, o_y = 80, o_scale = 1,
         o_rotation = 0, o_src = None, o_text = Some ''LOL''\<rparr>]"
    by (simp add: addText_def addOverlay_def)
  have ns_out: "\<forall>e\<in>set ?out. \<not> shiftKey e" and ns_in: "\<forall>e\<in>set ?in. \<not> shiftKey e"
    by simp_all
  note out = wheel_scaling [OF sel ns_out]
  note inn = wheel_scaling [OF sel ns_in]
  have one: "overlays (onWheel \<lparr>deltaY = - 53, shiftKey = False\<rparr> ?st) =
      [\<lparr>o_id = ''ov_1'', o_kind = Image, o_x = 300, o_y = 300, o_scale = 0.648,
         o_rotation = 0, o_src = Some ''/overlays/hat.png'', o_text = None\<rparr>,
       \<lparr>o_id = ''txt_1'', o_kind = Text, o_x = 300, o_y = 80, o_scale = 1,
         o_rotation = 0, o_src = None, o_text = Some ''LOL''\<rparr>]"
    using out [THEN conjunct1, THEN spec, of "\<lparr>deltaY = - 53, shiftKey = False\<rparr>"]
    unfolding ovs by (simp add: clamp_def)
  have out0: "o_scale (overlays (run_wheels ?out ?st) ! 0) = 0.2"
    using out [THEN conjunct2, THEN conjunct2, THEN spec, of 0] unfolding ovs by simp
  have out1: "overlays (run_wheels ?out ?st) ! 1 =
      \<lparr>o_id = ''txt_1'', o_kind = Text, o_x = 300, o_y = 80, o_scale = 1,
        o_rotation = 0, o_src = None, o_text = Some ''LOL''\<rparr>"
    using out [THEN conjunct2, THEN conjunct2, THEN spec, of 1] unfolding ovs by simp
  have in0: "o_scale (overlays (run_wheels ?in ?st) ! 0) = 4"
    using inn [THEN conjunct2, THEN conjunct2, THEN spec, of 0] unfolding ovs by simp
  show ?thesis using one out0 in0 out1 by simp
qed

section \<open>Render pipeline\<close>

lemma mat_apply_mul: "mat_apply (mat_mul m n) p = mat_apply m (mat_apply n p)"
  by (cases m; cases n) (simp add: mat_apply_def mat_mul_def algebra_simps)

lemma local_frame_apply:
  "mat_apply (local_frame m ov) (px, py) =
   mat_apply m (o_x ov + o_scale ov * (cos (o_rotation ov) * px - sin (o_rotation ov) * py),
                o_y ov + o_scale ov * (sin (o_rotation ov) * px + cos (o_rotation ov) * py))"
  by (simp add: local_frame_def mat_apply_mul)
     (simp add: mat_apply_def translate_m_def rotate_m_def scale_m_def algebra_simps)

text \<open>Setters and drawing calls: what each leaves alone.\<close>

lemma emit_simps [simp]:
  "cur (emit op c) = cur c" "saved (emit op c) = saved c" "ops (emit op c) = ops c @ [op]"
  by (simp_all add: emit_def)

lemmas ctx_defs =
  outline_def ctx_drawImage_def ctx_fillText_def ctx_strokeRect_def ctx_fillRect_def
  ctx_clearRect_def set_fillStyle_def set_strokeStyle_def set_lineWidth_def set_font_def
  set_textAlign_def set_textBaseline_def emit_def

lemma draw_shape_split:
  "draw_shape imgs sel ov c =
     c\<lparr>cur := cur (draw_shape imgs sel ov \<lparr>cur = cur c, saved = [], ops = []\<rparr>),
       ops := ops c @ ops (draw_shape imgs sel ov \<lparr>cur = cur c, saved = [], ops = []\<rparr>)\<rparr>"
  by (simp add: draw_shape_def ctx_defs Let_def split: option.splits)

lemma draw_shape_ops_frame:
  "\<forall>op\<in>set (ops (draw_shape imgs sel ov \<lparr>cur = st, saved = [], ops = []\<rparr>)).
      ctm (op_state op) = ctm st \<and> centered op"
  by (simp add: draw_shape_def ctx_defs Let_def split: option.splits)

lemma framed_cur:
  "cur (ctx_scale (o_scale ov) (o_scale ov)
         (ctx_rotate (o_rotation ov) (ctx_translate (o_x ov) (o_y ov) (ctx_save c)))) =
   (cur c)\<lparr>ctm := local_frame (ctm (cur c)) ov\<rparr>"
  by (simp add: ctx_scale_def ctx_rotate_def ctx_translate_def ctx_transform_def ctx_save_def
      local_frame_def)

lemma framed_rest:
  "saved (ctx_scale (o_scale ov) (o_scale ov)
         (ctx_rotate (o_rotation ov) (ctx_translate (o_x ov) (o_y ov) (ctx_save c)))) =
   cur c # saved c \<and>
   ops (ctx_scale (o_scale ov) (o_scale ov)
         (ctx_rotate (o_rotation ov) (ctx_translate (o_x ov) (o_y ov) (ctx_save c)))) = ops c"
  by (simp add: ctx_scale_def ctx_rotate_def ctx_translate_def ctx_transform_def ctx_save_def)

lemma overlay_ops_eq:
  "overlay_ops imgs sel st ov =
   ops (draw_shape imgs sel ov \<lparr>cur = st\<lparr>ctm := local_frame (ctm st) ov\<rparr>, saved = [], ops = []\<rparr>)"
proof -
  let ?c = "\<lparr>cur = st, saved = [], ops = []\<rparr>"
  let ?f = "ctx_scale (o_scale ov) (o_scale ov)
         (ctx_rotate (o_rotation ov) (ctx_translate (o_x ov) (o_y ov) (ctx_save ?c)))"
  have "overlay_ops imgs sel st ov = ops (ctx_restore (draw_shape imgs sel ov ?f))"
    by (simp add: overlay_ops_def draw_overlay_def)
  also have "\<dots> = ops (draw_shape imgs sel ov ?f)"
    by (simp add: ctx_restore_def split: list.splits)
  also have "\<dots> = ops ?f @ ops (draw_shape imgs sel ov \<lparr>cur = cur ?f, saved = [], ops = []\<rparr>)"
    by (subst draw_shape_split) simp
  finally show ?thesis
    using framed_cur [of ov ?c] framed_rest [of ov ?c] by simp
qed

lemma draw_overlay_effect:
  "draw_overlay imgs sel ov c = c\<lparr>ops := ops c @ overlay_ops imgs sel (cur c) ov\<rparr>"
proof -
  let ?f = "ctx_scale (o_scale ov) (o_scale ov)
         (ctx_rotate (o_rotation ov) (ctx_translate (o_x ov) (o_y ov) (ctx_save c)))"
  have sh: "draw_shape imgs sel ov ?f =
      ?f\<lparr>cur := cur (draw_shape imgs sel ov \<lparr>cur = cur ?f, saved = [], ops = []\<rparr>),
         ops := ops ?f @ ops (draw_shape imgs sel ov \<lparr>cur = cur ?f, saved = [], ops = []\<rparr>)\<rparr>"
    by (rule draw_shape_split)
  have "draw_overlay imgs sel ov c = ctx_restore (draw_shape imgs sel ov ?f)"
    by (simp add: draw_overlay_def)
  also have "\<dots> = c\<lparr>ops := ops c @ ops (draw_shape imgs sel ov \<lparr>cur = cur ?f, saved = [], ops = []\<rparr>)\<rparr>"
    by (subst sh) (simp add: ctx_restore_def framed_rest)
  finally show ?thesis
    by (simp add: overlay_ops_eq framed_cur)
qed

lemma overlay_ops_frame:
  "\<forall>op\<in>set (overlay_ops imgs sel st ov).
      ctm (op_state op) = local_frame (ctm st) ov \<and> centered op"
  using draw_shape_ops_frame [of imgs sel ov "st\<lparr>ctm := local_frame (ctm st) ov\<rparr>"]
  by (simp add: overlay_ops_eq)

lemma draw_overlays_effect:
  "draw_overlays imgs sel ovs c =
     c\<lparr>ops := ops c @ concat (map (overlay_ops imgs sel (cur c)) ovs)\<rparr>"
proof (induction ovs arbitrary: c)
  case Nil
  show ?case by (simp add: draw_overlays_def)
next
  case (Cons ov ovs)
  have "draw_overlays imgs sel (ov # ovs) c = draw_overlays imgs sel ovs (draw_overlay imgs sel ov c)"
    by (simp add: draw_overlays_def)
  then show ?case by (simp add: Cons.IH draw_overlay_effect)
qed

lemma draw_eq:
  "canvas_ctx (draw base ovs imgs sz dpr sel) =
   draw_overlays imgs sel ovs (canvas_ctx (draw base [] imgs sz dpr sel))"
  by (simp add: draw_def Let_def draw_overlays_def)

lemma draw_base_ctm: "ctm (cur (draw_base w h base c)) = ctm (cur c)"
  by (simp add: draw_base_def ctx_defs split: option.splits)

lemma draw_empty_ctm:
  "ctm (cur (canvas_ctx (draw base [] imgs sz dpr sel))) = (dpr, 0, 0, dpr, 0, 0)"
  by (simp add: draw_def Let_def draw_overlays_def draw_base_ctm)
     (simp add: ctx_defs ctx_setTransform_def)

text \<open>
  Claim C6. The overlay loop appends to the log, in collection order, the drawing calls
  of each overlay, so the calls of a later overlay come after, and paint over, those of
  an earlier one; it leaves the drawing state and the save stack as they were, so no
  overlay's frame reaches the next. Every call issued for an overlay carries the matrix
  obtained from the one in force before the loop by translating to the overlay's
  position, then rotating by its rotation, then scaling by its scale on both axes: a
  local point is scaled, then rotated, then moved to the overlay's position. Every such
  call draws a shape centred on the local origin. The same holds inside the whole draw
  effect, whose matrix before the loop is the pixel-density scaling.
\<close>

theorem paint_order_and_frames:
  "ops (draw_overlays imgs sel ovs c) = ops c @ concat (map (overlay_ops imgs sel (cur c)) ovs) \<and>
   cur (draw_overlays imgs sel ovs c) = cur c \<and>
   saved (draw_overlays imgs sel ovs c) = saved c \<and>
   (\<forall>ov\<in>set ovs. \<forall>op\<in>set (overlay_ops imgs sel (cur c) ov).
       ctm (op_state op) =
         mat_mul (mat_mul (mat_mul (ctm (cur c)) (translate_m (o_x ov) (o_y ov)))
                          (rotate_m (o_rotation ov)))
                 (scale_m (o_scale ov) (o_scale ov)) \<and>
       (\<forall>px py. mat_apply (ctm (op_state op)) (px, py) =
          mat_apply (ctm (cur c))
            (o_x ov + o_scale ov * (cos (o_rotation ov) * px - sin (o_rotation ov) * py),
             o_y ov + o_scale ov * (sin (o_rotation ov) * px + cos (o_rotation ov) * py))) \<and>
       centered op) \<and>
   ops (canvas_ctx (draw base ovs imgs sz dpr sel)) =
     ops (canvas_ctx (draw base [] imgs sz dpr sel)) @
     concat (map (overlay_ops imgs sel (cur (canvas_ctx (draw base [] imgs sz dpr sel)))) ovs) \<and>
   ctm (cur (canvas_ctx (draw base [] imgs sz dpr sel))) = (dpr, 0, 0, dpr, 0, 0)"
proof (intro conjI)
  show "ops (draw_overlays imgs sel ovs c) = ops c @ concat (map (overlay_ops imgs sel (cur c)) ovs)"
    by (simp add: draw_overlays_effect)
  show "cur (draw_overlays imgs sel ovs c) = cur c"
    by (simp add: draw_overlays_effect)
  show "saved (draw_overlays imgs sel ovs c) = saved c"
    by (simp add: draw_overlays_effect)
  show "\<forall>ov\<in>set ovs. \<forall>op\<in>set (overlay_ops imgs sel (cur c) ov).
       ctm (op_state op) =
         mat_mul (mat_mul (mat_mul (ctm (cur c)) (translate_m (o_x ov) (o_y ov)))
                          (rotate_m (o_rotation ov)))
                 (scale_m (o_scale ov) (o_scale ov)) \<and>
       (\<forall>px py. mat_apply (ctm (op_state op)) (px, py) =
          mat_apply (ctm (cur c))
            (o_x ov + o_scale ov * (cos (o_rotation ov) * px - sin (o_rotation ov) * py),
             o_y ov + o_scale ov * (sin (o_rotation ov) * px + cos (o_rotation ov) * py))) \<and>
       centered op"
    using overlay_ops_frame [of imgs sel "cur c"]
    by (simp add: local_frame_apply) (simp add: local_frame_def)
  show "ops (canvas_ctx (draw base ovs imgs sz dpr sel)) =
     ops (canvas_ctx (draw base [] imgs sz dpr sel)) @
     concat (map (overlay_ops imgs sel (cur (canvas_ctx (draw base [] imgs sz dpr sel)))) ovs)"
    by (subst draw_eq) (simp add: draw_overlays_effect)
  show "ctm (cur (canvas_ctx (draw base [] imgs sz dpr sel))) = (dpr, 0, 0, dpr, 0, 0)"
    by (rule draw_empty_ctm)
qed

theorem paint_order_and_frames_witness:
  "ops (draw_overlays
          [''ov_1'' \<mapsto> \<lparr>img_src = ''/overlays/hat.png'', naturalWidth = 200, naturalHeight = 100\<rparr>]
          (Some ''txt_1'')
          (addText ''txt_1'' (addOverlay ''ov_1'' ''/overlays/hat.png'' []))
          ctx_reset)
   = [DrawImage
        ((cur ctx_reset)\<lparr>ctm := (0.6, 0, 0, 0.6, 300, 300)\<rparr>)
        \<lparr>img_src = ''/overlays/hat.png'', naturalWidth = 200, naturalHeight = 100\<rparr>
        (- 100) (- 50) 200 100,
      FillText
        ((cur ctx_reset)\<lparr>ctm := (1, 0, 0, 1, 300, 80), fillStyle := ''white'',
            font := ''48px Impact, system-ui'', textAlign := ''center'',
            textBaseline := ''middle''\<rparr>)
        ''LOL'' 0 0,
      StrokeRect
        ((cur ctx_reset)\<lparr>ctm := (1, 0, 0, 1, 300, 80), fillStyle := ''white'',
            font := ''48px Impact, system-ui'', textAlign := ''center'',
            textBaseline := ''middle'', strokeStyle := ''rgba(255,255,255,0.8)'',
            lineWidth := 2\<rparr>)
        (- 150) (- 35) 300 70]"
  using paint_order_and_frames
    [of "[''ov_1'' \<mapsto> \<lparr>img_src = ''/overlays/hat.png'', naturalWidth = 200, naturalHeight = 100\<rparr>]"
        "Some ''txt_1''" "addText ''txt_1'' (addOverlay ''ov_1'' ''/overlays/hat.png'' [])"
        ctx_reset]
  by (simp add: addText_def addOverlay_def overlay_ops_eq local_frame_def draw_shape_def truthy_def
      ctx_defs ctx_reset_def mat_mul_def mat_identity_def translate_m_def rotate_m_def scale_m_def
      Let_def)

subsection \<open>Rounding\<close>





















text \<open>
  Claim C10. A text overlay whose text is absent or empty adds no drawing call and
  leaves the context as it was, whatever the selection is, and so also when the
  selection is its own id: neither text nor outline is drawn. The hit-test still sees
  it: placed anywhere in a collection, it is the result whenever it is nearer than 120 to
  the pointer, strictly nearer than every overlay before it and at least as near as
  every overlay after it.
\<close>

theorem empty_text_invisible:
  assumes "o_kind ov = Text" and "\<not> truthy (o_text ov)"
  shows "draw_overlay imgs sel ov c = c \<and>
         draw_overlay imgs (Some (o_id ov)) ov c = c \<and>
         ((\<forall>v\<in>set pre. center_dist x y ov < center_dist x y v) \<and>
          (\<forall>v\<in>set post. center_dist x y ov \<le> center_dist x y v) \<and>
          center_dist x y ov < 120
          \<longrightarrow> pickOverlay (pre @ ov # post) x y = Some (o_id ov))"
proof -
  have none: "overlay_ops imgs s st ov = []" for s st
    using assms by (simp add: overlay_ops_eq draw_shape_def)
  have same: "draw_overlay imgs s ov c = c" for s
    by (simp add: draw_overlay_effect none)
  have "pickOverlay (pre @ ov # post) x y = Some (o_id ov)"
    if "\<forall>v\<in>set pre. center_dist x y ov < center_dist x y v"
       "\<forall>v\<in>set post. center_dist x y ov \<le> center_dist x y v"
       "center_dist x y ov < 120"
    using pick_loop_first_min [OF that(1) that(2)] that(3) by (simp add: pickOverlay_def)
  then show ?thesis using same by blast
qed

theorem empty_text_invisible_witness:
  "draw_overlay Map.empty (Some ''txt_1'')
     \<lparr>o_id = ''txt_1'', o_kind = Text, o_x = 300, o_y = 80, o_scale = 1,
       o_rotation = 0, o_src = None, o_text = Some ''''\<rparr> ctx_reset = ctx_reset \<and>
   pickOverlay
     (addOverlay ''ov_1'' ''/overlays/hat.png'' [] @
      [\<lparr>o_id = ''txt_1'', o_kind = Text, o_x = 300, o_y = 80, o_scale = 1,
         o_rotation = 0, o_src = None, o_text = Some ''''\<rparr>]) 300 100 = Some ''txt_1''"
  using empty_text_invisible
    [of "\<lparr>o_id = ''txt_1'', o_kind = Text, o_x = 300, o_y = 80, o_scale = 1,
           o_rotation = 0, o_src = None, o_text = Some ''''\<rparr>"
        Map.empty "Some ''txt_1''" ctx_reset
        "addOverlay ''ov_1'' ''/overlays/hat.png'' []" 300 100 "[]"]
  by (simp add: truthy_def addOverlay_def center_dist_def)

section \<open>Image loading\<close>

text \<open>
  Claim C1 fails on the code. Identifier \<open>/sample-face.jpg\<close> is requested and then
  superseded by \<open>blob:b\<close> before its decode completes; the decode of \<open>blob:b\<close>
  succeeds and fills the base slot. When the stale decode then fails, the slot is
  emptied, although the claim requires it to keep reflecting the result of \<open>blob:b\<close>.
  When the stale decode succeeds instead, its result is discarded and the slot keeps
  the bitmap of \<open>blob:b\<close>: the success path checks \<open>cancelled\<close>, the \<open>catch\<close> handler
  does not.
\<close>

theorem stale_base_failure_clears_slot:
  "baseImg (base_run [SetBaseImageUrl (Some ''blob:b''), BaseLoaded 1 800 600]
              (base_mount (Some ''/sample-face.jpg'')))
     = Some \<lparr>img_src = ''blob:b'', naturalWidth = 800, naturalHeight = 600\<rparr> \<and>
   baseImg (base_run [SetBaseImageUrl (Some ''blob:b''), BaseLoaded 1 800 600, BaseFailed 0]
              (base_mount (Some ''/sample-face.jpg'')))
     = None \<and>
   baseImg (base_run [SetBaseImageUrl (Some ''blob:b''), BaseLoaded 1 800 600, BaseLoaded 0 640 480]
              (base_mount (Some ''/sample-face.jpg'')))
     = Some \<lparr>img_src = ''blob:b'', naturalWidth = 800, naturalHeight = 600\<rparr>"
  by (simp add: base_run_def base_mount_def base_init_def base_effect_def base_cleanup_def Let_def)

lemma promise_all_Rejected: "(promise_all rs = Rejected) = (Rejected \<in> set rs)"
proof (induction rs)
  case Nil
  show ?case by simp
next
  case (Cons r rs)
  then show ?case by (cases r) (auto split: outcome.splits)
qed

lemma promise_all_map_Fulfilled: "promise_all (map Fulfilled vs) = Fulfilled vs"
  by (induction vs) simp_all

lemma promise_all_FulfilledD: "promise_all rs = Fulfilled vs \<Longrightarrow> rs = map Fulfilled vs"
proof (induction rs arbitrary: vs)
  case Nil
  then show ?case by simp
next
  case (Cons r rs)
  show ?case
  proof (cases r)
    case Pending
    then show ?thesis using Cons.prems by (simp split: outcome.splits)
  next
    case (Fulfilled v)
    then obtain ws where "promise_all rs = Fulfilled ws" "vs = v # ws"
      using Cons.prems by (auto split: outcome.splits)
    then show ?thesis using Cons.IH Fulfilled by simp
  next
    case Rejected
    then show ?thesis using Cons.prems by simp
  qed
qed

lemma promise_all_Fulfilled: "(promise_all rs = Fulfilled vs) = (rs = map Fulfilled vs)"
  using promise_all_FulfilledD promise_all_map_Fulfilled by blast

lemma promise_all_Pending:
  "(promise_all rs = Pending) = (Rejected \<notin> set rs \<and> Pending \<in> set rs)"
proof (induction rs)
  case Nil
  show ?case by simp
next
  case (Cons r rs)
  then show ?case
    by (cases r) (auto split: outcome.splits simp: promise_all_Rejected dest: promise_all_FulfilledD)
qed

lemma update_keeps_Rejected:
  "Rejected \<in> set rs \<Longrightarrow> i < length rs \<Longrightarrow> rs ! i = Pending \<Longrightarrow> Rejected \<in> set (rs[i := r])"
  by (metis in_set_conv_nth length_list_update nth_list_update_neq outcome.distinct(3))

lemma no_Pending_Fulfilled: "Pending \<notin> set (map Fulfilled vs)"
  by (induction vs) simp_all

lemma settle_frame:
  "length (batches (settle b i r st)) = length (batches st) \<and>
   batch_current (settle b i r st) = batch_current st \<and>
   ob_cancelled (batches (settle b i r st) ! b) = ob_cancelled (batches st ! b) \<and>
   ob_needed (batches (settle b i r st) ! b) = ob_needed (batches st ! b) \<and>
   length (ob_results (batches (settle b i r st) ! b)) = length (ob_results (batches st ! b))"
  by (simp add: settle_def Let_def split: outcome.splits)

lemma settle_noop:
  "\<not> (b < length (batches st) \<and> i < length (ob_results (batches st ! b)) \<and>
      ob_results (batches st ! b) ! i = Pending) \<Longrightarrow> settle b i r st = st"
  unfolding settle_def by (rule if_not_P)

lemma settle_settled:
  "joint b st \<noteq> Pending \<Longrightarrow>
   overlayImgs (settle b i r st) = overlayImgs st \<and> joint b (settle b i r st) = joint b st"
proof (cases "joint b st")
  case Pending
  then show "joint b st \<noteq> Pending \<Longrightarrow> ?thesis" by simp
next
  case (Fulfilled vs)
  then have "ob_results (batches st ! b) = map Fulfilled vs"
    by (simp add: joint_def promise_all_Fulfilled)
  then have "Pending \<notin> set (ob_results (batches st ! b))"
    by (simp only: no_Pending_Fulfilled not_False_eq_True)
  then have "\<not> (b < length (batches st) \<and> i < length (ob_results (batches st ! b)) \<and>
                ob_results (batches st ! b) ! i = Pending)"
    by (metis nth_mem)
  then have "settle b i r st = st"
    by (rule settle_noop)
  then show ?thesis by simp
next
  case Rejected
  then have rej: "Rejected \<in> set (ob_results (batches st ! b))"
    by (simp add: joint_def promise_all_Rejected)
  show ?thesis
  proof (cases "b < length (batches st) \<and> i < length (ob_results (batches st ! b)) \<and>
         ob_results (batches st ! b) ! i = Pending")
    case False
    then have "settle b i r st = st" by (rule settle_noop)
    then show ?thesis by simp
  next
    case True
    then have "Rejected \<in> set ((ob_results (batches st ! b))[i := r])"
      using rej by (intro update_keeps_Rejected) simp_all
    then have pr: "promise_all ((ob_results (batches st ! b))[i := r]) = Rejected"
      by (simp add: promise_all_Rejected)
    show ?thesis using True Rejected by (simp add: settle_def Let_def pr joint_def)
  qed
qed

lemma settle_pending:
  "joint b st = Pending \<Longrightarrow> \<not> ob_cancelled (batches st ! b) \<Longrightarrow>
   (case joint b (settle b i r st) of
      Fulfilled lp \<Rightarrow> overlayImgs (settle b i r st) = merge_pairs lp (overlayImgs st)
    | _ \<Rightarrow> overlayImgs (settle b i r st) = overlayImgs st)"
proof (cases "b < length (batches st) \<and> i < length (ob_results (batches st ! b)) \<and>
         ob_results (batches st ! b) ! i = Pending")
  case False
  assume "joint b st = Pending"
  moreover from False have "settle b i r st = st" by (rule settle_noop)
  ultimately show ?thesis by simp
next
  case True
  assume nc: "\<not> ob_cancelled (batches st ! b)"
  show ?thesis
    using True nc by (simp add: settle_def Let_def joint_def split: outcome.splits)
qed

lemma settle_ok:
  "batch_ok (batches st ! b) \<Longrightarrow> (\<forall>p. r = Fulfilled p \<longrightarrow> fst p = fst (ob_needed (batches st ! b) ! i)) \<Longrightarrow>
   batch_ok (batches (settle b i r st) ! b)"
  by (auto simp: settle_def Let_def batch_ok_def nth_list_update split: outcome.splits)

lemma overlay_run_Cons: "overlay_run (e # es) st = overlay_run es (overlay_step e st)"
  by (simp add: overlay_run_def)

lemma settle_other: "b' \<noteq> b \<Longrightarrow> batches (settle b' i r st) ! b = batches st ! b"
  by (simp add: settle_def Let_def split: outcome.splits)

lemma settle_cancelled:
  "ob_cancelled (batches st ! b') \<Longrightarrow> overlayImgs (settle b' i r st) = overlayImgs st"
  by (simp add: settle_def Let_def split: outcome.splits)

lemma settle_flags:
  "ob_cancelled (batches (settle b' i r st) ! k) = ob_cancelled (batches st ! k)"
  by (simp add: settle_def Let_def nth_list_update split: outcome.splits)

lemma step_form:
  assumes "\<not> is_change e"
  shows "overlay_step e st = st \<or> (\<exists>b' i r. overlay_step e st = settle b' i r st \<and>
           (\<forall>p. r = Fulfilled p \<longrightarrow> fst p = fst (ob_needed (batches st ! b') ! i)))"
proof (cases e)
  case (OverlaysChanged ovs)
  then show ?thesis using assms by simp
next
  case (OverlayLoaded b' i w h)
  show ?thesis
  proof (cases "b' < length (batches st) \<and> i < length (ob_needed (batches st ! b'))")
    case True
    obtain oid s where ns: "ob_needed (batches st ! b') ! i = (oid, s)"
      by (cases "ob_needed (batches st ! b') ! i")
    have "overlay_step e st =
        settle b' i (Fulfilled (oid, \<lparr>img_src = s, naturalWidth = w, naturalHeight = h\<rparr>)) st"
      using True ns by (simp add: OverlayLoaded)
    then show ?thesis using ns by (intro disjI2 exI conjI) auto
  next
    case False
    then show ?thesis by (auto simp: OverlayLoaded)
  qed
next
  case (OverlayFailed b' i)
  then show ?thesis by (intro disjI2 exI [of _ b'] exI [of _ i] exI [of _ Rejected]) simp
qed

lemma superseded_init: "superseded overlay_init"
  by (simp add: superseded_def overlay_init_def)

lemma superseded_step: "superseded st \<Longrightarrow> superseded (overlay_step e st)"
proof (cases e)
  case (OverlaysChanged ovs)
  assume "superseded st"
  then show ?thesis
    unfolding OverlaysChanged
    by (auto simp: superseded_def overlay_effect_def overlay_cleanup_def Let_def nth_append
        nth_list_update split: option.splits)
next
  case (OverlayLoaded b' i w h)
  assume "superseded st"
  then show ?thesis
    unfolding OverlayLoaded
    by (auto simp: superseded_def settle_frame settle_flags split: prod.splits)
next
  case (OverlayFailed b' i)
  assume "superseded st"
  then show ?thesis
    unfolding OverlayFailed
    by (auto simp: superseded_def settle_frame settle_flags)
qed

lemma superseded_run: "superseded st \<Longrightarrow> superseded (overlay_run es st)"
  by (induction es arbitrary: st) (simp_all add: overlay_run_def superseded_step)


lemma step_frame:
  assumes e: "\<not> is_change e" and len: "length (batches st) = Suc b"
      and old: "\<forall>k<b. ob_cancelled (batches st ! k)"
      and nc: "\<not> ob_cancelled (batches st ! b)" and ok: "batch_ok (batches st ! b)"
  shows "length (batches (overlay_step e st)) = Suc b \<and>
         (\<forall>k<b. ob_cancelled (batches (overlay_step e st) ! k)) \<and>
         \<not> ob_cancelled (batches (overlay_step e st) ! b) \<and>
         batch_ok (batches (overlay_step e st) ! b) \<and>
         ob_needed (batches (overlay_step e st) ! b) = ob_needed (batches st ! b) \<and>
         (if joint b st = Pending
          then (case joint b (overlay_step e st) of
                  Fulfilled lp \<Rightarrow> overlayImgs (overlay_step e st) = merge_pairs lp (overlayImgs st)
                | _ \<Rightarrow> overlayImgs (overlay_step e st) = overlayImgs st)
          else overlayImgs (overlay_step e st) = overlayImgs st \<and>
               joint b (overlay_step e st) = joint b st)"
proof -
  let ?st' = "overlay_step e st"
  consider (same) "?st' = st"
    | (settle) b' i r where "?st' = settle b' i r st"
        "\<forall>p. r = Fulfilled p \<longrightarrow> fst p = fst (ob_needed (batches st ! b') ! i)"
    using step_form [OF e, of st] by blast
  then show ?thesis
  proof cases
    case same
    show ?thesis unfolding same using len old nc ok by (simp split: outcome.splits)
  next
    case (settle b' i r)
    note st' = settle(1)
    have frame: "length (batches ?st') = Suc b" "\<forall>k<b. ob_cancelled (batches ?st' ! k)"
        "\<not> ob_cancelled (batches ?st' ! b)"
      unfolding st' using len old nc by (simp_all add: settle_frame settle_flags)
    show ?thesis
    proof (cases "b' = b")
      case True
      have ok': "batch_ok (batches ?st' ! b)"
        unfolding st' True using ok settle(2) [unfolded True] by (rule settle_ok)
      have nd': "ob_needed (batches ?st' ! b) = ob_needed (batches st ! b)"
        unfolding st' True by (simp add: settle_frame)
      have cache: "if joint b st = Pending
          then (case joint b ?st' of
                  Fulfilled lp \<Rightarrow> overlayImgs ?st' = merge_pairs lp (overlayImgs st)
                | _ \<Rightarrow> overlayImgs ?st' = overlayImgs st)
          else overlayImgs ?st' = overlayImgs st \<and> joint b ?st' = joint b st"
      proof (cases "joint b st = Pending")
        case False
        then show ?thesis unfolding st' True using settle_settled [of b st i r] by simp
      next
        case P: True
        show ?thesis unfolding st' True using settle_pending [OF P nc, of i r] P by simp
      qed
      show ?thesis using frame ok' nd' cache by blast
    next
      case False
      have bt: "batches ?st' ! b = batches st ! b"
        unfolding st' using False by (rule settle_other)
      have imgs: "overlayImgs ?st' = overlayImgs st"
      proof (cases "b' < length (batches st)")
        case True
        then have "b' < b" using len False by simp
        then have "ob_cancelled (batches st ! b')" using old by simp
        then show ?thesis unfolding st' by (rule settle_cancelled)
      next
        case F: False
        then have "settle b' i r st = st" by (intro settle_noop) simp
        then show ?thesis unfolding st' by simp
      qed
      have j: "joint b ?st' = joint b st" by (simp add: joint_def bt)
      show ?thesis using frame ok nc imgs j bt by (simp split: outcome.splits)
    qed
  qed
qed

lemma decoded_Pending: "(decoded p x = Pending) = (x = Pending)"
  by (cases x) simp_all

lemma step_results:
  assumes e: "\<not> is_change e" and ok: "batch_ok (batches st ! b)"
      and b: "b < length (batches st)" and i: "i < length (ob_needed (batches st ! b))"
  shows "ob_results (batches (overlay_step e st) ! b) ! i =
           (case ob_results (batches st ! b) ! i of
              Pending \<Rightarrow> decoded (ob_needed (batches st ! b) ! i) (first_completion b i [e])
            | r \<Rightarrow> r)"
proof (cases e)
  case (OverlaysChanged ovs)
  then show ?thesis using e by simp
next
  case (OverlayLoaded b' i' w h)
  show ?thesis
    using ok b i unfolding OverlayLoaded
    by (cases "ob_needed (batches st ! b) ! i")
       (auto simp: settle_def Let_def batch_ok_def nth_list_update image_of_def
             split: outcome.splits prod.splits)
next
  case (OverlayFailed b' i')
  show ?thesis
    using ok b i unfolding OverlayFailed
    by (auto simp: settle_def Let_def batch_ok_def nth_list_update split: outcome.splits)
qed

lemma first_completion_Cons:
  "first_completion b i (e # es) =
     (case first_completion b i [e] of Pending \<Rightarrow> first_completion b i es | r \<Rightarrow> r)"
  by (cases e) simp_all


lemma run_batch:
  assumes "\<forall>e\<in>set es. \<not> is_change e" and "length (batches st) = Suc b"
      and "\<forall>k<b. ob_cancelled (batches st ! k)"
      and "\<not> ob_cancelled (batches st ! b)" and "batch_ok (batches st ! b)"
  shows "batch_ok (batches (overlay_run es st) ! b) \<and>
         ob_needed (batches (overlay_run es st) ! b) = ob_needed (batches st ! b) \<and>
         (if joint b st = Pending
          then (case joint b (overlay_run es st) of
                  Fulfilled lp \<Rightarrow> overlayImgs (overlay_run es st) = merge_pairs lp (overlayImgs st)
                | _ \<Rightarrow> overlayImgs (overlay_run es st) = overlayImgs st)
          else overlayImgs (overlay_run es st) = overlayImgs st \<and>
               joint b (overlay_run es st) = joint b st) \<and>
         (\<forall>i<length (ob_needed (batches st ! b)).
            ob_results (batches (overlay_run es st) ! b) ! i =
              (case ob_results (batches st ! b) ! i of
                 Pending \<Rightarrow> decoded (ob_needed (batches st ! b) ! i) (first_completion b i es)
               | r \<Rightarrow> r))"
  using assms
proof (induction es arbitrary: st)
  case Nil
  then show ?case by (simp add: overlay_run_def split: outcome.splits)
next
  case (Cons e es)
  let ?st' = "overlay_step e st"
  have e: "\<not> is_change e" and es: "\<forall>e\<in>set es. \<not> is_change e"
    using Cons.prems(1) by simp_all
  note sf = step_frame [OF e Cons.prems(2-5)]
  have len': "length (batches ?st') = Suc b" using sf by blast
  have old': "\<forall>k<b. ob_cancelled (batches ?st' ! k)" using sf by blast
  have nc': "\<not> ob_cancelled (batches ?st' ! b)" using sf by blast
  have ok': "batch_ok (batches ?st' ! b)" using sf by blast
  have nd': "ob_needed (batches ?st' ! b) = ob_needed (batches st ! b)" using sf by blast
  have cache': "if joint b st = Pending
          then (case joint b ?st' of
                  Fulfilled lp \<Rightarrow> overlayImgs ?st' = merge_pairs lp (overlayImgs st)
                | _ \<Rightarrow> overlayImgs ?st' = overlayImgs st)
          else overlayImgs ?st' = overlayImgs st \<and> joint b ?st' = joint b st"
    using sf by blast
  note IH = Cons.IH [OF es len' old' nc' ok']
  have okn: "batch_ok (batches (overlay_run (e # es) st) ! b)"
    unfolding overlay_run_Cons using IH by blast
  have ndn: "ob_needed (batches (overlay_run (e # es) st) ! b) = ob_needed (batches st ! b)"
    unfolding overlay_run_Cons using IH nd' by simp
  have IHc: "if joint b ?st' = Pending
          then (case joint b (overlay_run es ?st') of
                  Fulfilled lp \<Rightarrow> overlayImgs (overlay_run es ?st') = merge_pairs lp (overlayImgs ?st')
                | _ \<Rightarrow> overlayImgs (overlay_run es ?st') = overlayImgs ?st')
          else overlayImgs (overlay_run es ?st') = overlayImgs ?st' \<and>
               joint b (overlay_run es ?st') = joint b ?st'"
    using IH by blast
  have cachen: "if joint b st = Pending
          then (case joint b (overlay_run (e # es) st) of
                  Fulfilled lp \<Rightarrow> overlayImgs (overlay_run (e # es) st) = merge_pairs lp (overlayImgs st)
                | _ \<Rightarrow> overlayImgs (overlay_run (e # es) st) = overlayImgs st)
          else overlayImgs (overlay_run (e # es) st) = overlayImgs st \<and>
               joint b (overlay_run (e # es) st) = joint b st"
  proof (cases "joint b st = Pending")
    case False
    then show ?thesis unfolding overlay_run_Cons using IHc cache' by simp
  next
    case True
    show ?thesis
    proof (cases "joint b ?st'")
      case Pending
      then show ?thesis
        unfolding overlay_run_Cons using IHc True cache' by (simp split: outcome.splits)
    next
      case (Fulfilled lp)
      then show ?thesis
        unfolding overlay_run_Cons using IHc True cache' by (simp split: outcome.splits)
    next
      case Rejected
      then show ?thesis
        unfolding overlay_run_Cons using IHc True cache' by (simp split: outcome.splits)
    qed
  qed
  have resn: "ob_results (batches (overlay_run (e # es) st) ! b) ! i =
      (case ob_results (batches st ! b) ! i of
         Pending \<Rightarrow> decoded (ob_needed (batches st ! b) ! i) (first_completion b i (e # es))
       | r \<Rightarrow> r)"
    if i: "i < length (ob_needed (batches st ! b))" for i
  proof -
    have b: "b < length (batches st)" using Cons.prems(2) by simp
    note r1 = step_results [OF e Cons.prems(5) b i]
    have r2: "ob_results (batches (overlay_run es ?st') ! b) ! i =
        (case ob_results (batches ?st' ! b) ! i of
           Pending \<Rightarrow> decoded (ob_needed (batches st ! b) ! i) (first_completion b i es)
         | r \<Rightarrow> r)"
      using IH i nd' by (simp split: outcome.splits)
    show ?thesis
      unfolding overlay_run_Cons r2 r1 first_completion_Cons [of b i e es]
      by (cases "ob_results (batches st ! b) ! i"; cases "first_completion b i [e]") simp_all
  qed
  show ?case using okn ndn cachen resn by blast
qed

lemma merge_pairs_map_of: "merge_pairs lp m = m ++ map_of (rev lp)"
proof (induction lp arbitrary: m)
  case Nil
  show ?case by (simp add: merge_pairs_def)
next
  case (Cons p lp)
  obtain i img where p: "p = (i, img)" by (cases p)
  have "merge_pairs (p # lp) m = merge_pairs lp (m(i \<mapsto> img))"
    by (simp add: merge_pairs_def p)
  also have "\<dots> = m(i \<mapsto> img) ++ map_of (rev lp)" by (rule Cons.IH)
  also have "\<dots> = m ++ map_of (rev (p # lp))"
    by (rule ext) (simp add: p map_add_def split: option.splits)
  finally show ?case .
qed

lemma changed_old:
  assumes "superseded st0" and "needed_of ovs (overlayImgs st0) \<noteq> []"
  shows "length (batches (overlay_step (OverlaysChanged ovs) st0)) = Suc (length (batches st0)) \<and>
         (\<forall>k<length (batches st0). ob_cancelled (batches (overlay_step (OverlaysChanged ovs) st0) ! k))"
  using assms
  by (auto simp: superseded_def overlay_effect_def overlay_cleanup_def Let_def nth_append
      nth_list_update split: option.splits)


lemma decoded_FulfilledD: "decoded p x = Fulfilled q \<Longrightarrow> \<exists>d. x = Fulfilled d"
  by (cases x) simp_all

lemma map_fst_image_of:
  "length dims = length needed \<Longrightarrow> map fst (map2 image_of needed dims) = map fst needed"
  by (intro nth_equalityI) (simp_all add: image_of_def)

lemma dom_merge_pairs: "dom (merge_pairs lp m) = dom m \<union> fst ` set lp"
  unfolding merge_pairs_def by (induction lp arbitrary: m) auto

lemma changed_batch:
  assumes "needed_of ovs (overlayImgs st0) \<noteq> []"
  shows "batches (overlay_step (OverlaysChanged ovs) st0) ! length (batches st0) =
           \<lparr>ob_needed = needed_of ovs (overlayImgs st0),
            ob_results = replicate (length (needed_of ovs (overlayImgs st0))) Pending,
            ob_cancelled = False\<rparr> \<and>
         overlayImgs (overlay_step (OverlaysChanged ovs) st0) = overlayImgs st0"
  using assms
  by (simp add: overlay_effect_def overlay_cleanup_def Let_def nth_append split: option.splits)

text \<open>
  Claim C2, as amended. In any state the loader can reach, a collection change finds
  missing image overlays and starts a batch. Take any run of completions after it, of
  decodes of this batch or of batches superseded earlier, in any order, with no newer
  collection change in between. If some decode of the batch has not yet succeeded by the
  end of the run (it is pending, or it has failed), the cache is exactly the cache from
  before the change: no result of the batch has been merged on its own, and a failure
  leaves the whole batch unresolved. If every decode of the batch has succeeded, the
  cache is the old one with the pair of every missing overlay added, each image with
  the dimensions its decode reported, so its keys are the old ones and the ids of all
  missing overlays.
\<close>

theorem overlay_batch_all_or_nothing:
  fixes pre es :: "overlay_event list" and ovs :: "overlay_item list"
  defines "st0 \<equiv> overlay_run pre overlay_init"
  defines "needed \<equiv> needed_of ovs (overlayImgs st0)"
  defines "b \<equiv> length (batches st0)"
  defines "stn \<equiv> overlay_run es (overlay_step (OverlaysChanged ovs) st0)"
  assumes needed: "needed \<noteq> []" and es: "\<forall>e\<in>set es. \<not> is_change e"
  shows "((\<exists>i<length needed. \<forall>d. first_completion b i es \<noteq> Fulfilled d)
            \<longrightarrow> overlayImgs stn = overlayImgs st0) \<and>
         (\<forall>dims. length dims = length needed \<and>
                 (\<forall>i<length needed. first_completion b i es = Fulfilled (dims ! i))
            \<longrightarrow> overlayImgs stn = overlayImgs st0 ++ map_of (rev (map2 image_of needed dims)) \<and>
                dom (overlayImgs stn) = dom (overlayImgs st0) \<union> fst ` set needed)"
proof -
  let ?st1 = "overlay_step (OverlaysChanged ovs) st0"
  let ?rs = "ob_results (batches stn ! b)"
  have ne: "needed_of ovs (overlayImgs st0) \<noteq> []" using needed by (simp add: needed_def)
  have sup: "superseded st0"
    unfolding st0_def using superseded_init by (rule superseded_run)
  note cb = changed_batch [OF ne, folded needed_def b_def]
  note co = changed_old [OF sup ne, folded b_def]
  have bt: "batches ?st1 ! b =
      \<lparr>ob_needed = needed, ob_results = replicate (length needed) Pending, ob_cancelled = False\<rparr>"
    and imgs1: "overlayImgs ?st1 = overlayImgs st0"
    using cb by simp_all
  have len1: "length (batches ?st1) = Suc b" and old1: "\<forall>k<b. ob_cancelled (batches ?st1 ! k)"
    using co by simp_all
  have ok1: "batch_ok (batches ?st1 ! b)" unfolding batch_ok_def bt by simp
  have nc1: "\<not> ob_cancelled (batches ?st1 ! b)" unfolding bt by simp
  have "Pending \<in> set (replicate (length needed) (Pending :: (string \<times> html_image) outcome))"
    using needed by simp
  then have j1: "joint b ?st1 = Pending"
    unfolding joint_def bt by (simp add: promise_all_Pending)
  note run = run_batch [OF es len1 old1 nc1 ok1, folded stn_def]
  have okn: "batch_ok (batches stn ! b)" using run by blast
  have ndn: "ob_needed (batches stn ! b) = needed" using run bt by simp
  have lenrs: "length ?rs = length needed" using okn ndn by (simp add: batch_ok_def)
  have res: "?rs ! i = decoded (needed ! i) (first_completion b i es)" if "i < length needed" for i
    using run that bt by simp
  have cases: "case joint b stn of
        Fulfilled lp \<Rightarrow> overlayImgs stn = merge_pairs lp (overlayImgs st0)
      | _ \<Rightarrow> overlayImgs stn = overlayImgs st0"
    using run j1 imgs1 by (simp split: outcome.splits)
  have unsettled: "overlayImgs stn = overlayImgs st0"
    if ex: "\<exists>i<length needed. \<forall>d. first_completion b i es \<noteq> Fulfilled d"
  proof -
    obtain i where i: "i < length needed" and nf: "\<forall>d. first_completion b i es \<noteq> Fulfilled d"
      using ex by blast
    have "joint b stn \<noteq> Fulfilled lp" for lp
    proof
      assume "joint b stn = Fulfilled lp"
      then have rs: "?rs = map Fulfilled lp" by (simp add: joint_def promise_all_Fulfilled)
      then have "length lp = length needed" using lenrs by simp
      then have "?rs ! i = Fulfilled (lp ! i)" using rs i by simp
      then have "decoded (needed ! i) (first_completion b i es) = Fulfilled (lp ! i)"
        using res [OF i] by simp
      then show False using nf decoded_FulfilledD by blast
    qed
    then show ?thesis using cases by (cases "joint b stn") auto
  qed
  have settled: "overlayImgs stn = overlayImgs st0 ++ map_of (rev (map2 image_of needed dims)) \<and>
        dom (overlayImgs stn) = dom (overlayImgs st0) \<union> fst ` set needed"
    if len: "length dims = length needed"
      and fc: "\<forall>i<length needed. first_completion b i es = Fulfilled (dims ! i)" for dims
  proof -
    let ?lp = "map2 image_of needed dims"
    have "?rs = map Fulfilled ?lp"
      using lenrs len fc by (intro nth_equalityI) (simp_all add: res)
    then have "joint b stn = Fulfilled ?lp"
      by (simp add: joint_def promise_all_Fulfilled)
    then have m: "overlayImgs stn = merge_pairs ?lp (overlayImgs st0)" using cases by simp
    have "fst ` set ?lp = fst ` set needed"
      using map_fst_image_of [OF len] by (metis set_map)
    then have "dom (overlayImgs stn) = dom (overlayImgs st0) \<union> fst ` set needed"
      unfolding m by (simp only: dom_merge_pairs)
    then show ?thesis using m by (simp only: merge_pairs_map_of simp_thms)
  qed
  show ?thesis using unsettled settled by blast
qed

theorem overlay_batch_all_or_nothing_witness:
  "overlayImgs
     (overlay_run [OverlayLoaded 1 1 200 100, OverlayLoaded 0 0 64 64, OverlayLoaded 1 0 300 150]
        (overlay_step
           (OverlaysChanged (addOverlay ''ov_2'' ''/overlays/hat.png''
                              (addOverlay ''ov_1'' ''/overlays/mustache.png'' [])))
           (overlay_run [OverlaysChanged (addOverlay ''ov_1'' ''/overlays/mustache.png'' [])]
              overlay_init)))
     = [''ov_1'' \<mapsto> \<lparr>img_src = ''/overlays/mustache.png'', naturalWidth = 300, naturalHeight = 150\<rparr>,
        ''ov_2'' \<mapsto> \<lparr>img_src = ''/overlays/hat.png'', naturalWidth = 200, naturalHeight = 100\<rparr>] \<and>
   overlayImgs
     (overlay_run [OverlayLoaded 1 1 200 100, OverlayLoaded 0 0 64 64]
        (overlay_step
           (OverlaysChanged (addOverlay ''ov_2'' ''/overlays/hat.png''
                              (addOverlay ''ov_1'' ''/overlays/mustache.png'' [])))
           (overlay_run [OverlaysChanged (addOverlay ''ov_1'' ''/overlays/mustache.png'' [])]
              overlay_init)))
     = Map.empty \<and>
   overlayImgs
     (overlay_run [OverlayLoaded 1 1 200 100, OverlayFailed 1 0, OverlayLoaded 0 0 64 64]
        (overlay_step
           (OverlaysChanged (addOverlay ''ov_2'' ''/overlays/hat.png''
                              (addOverlay ''ov_1'' ''/overlays/mustache.png'' [])))
           (overlay_run [OverlaysChanged (addOverlay ''ov_1'' ''/overlays/mustache.png'' [])]
              overlay_init)))
     = Map.empty"
proof -
  let ?ovs = "addOverlay ''ov_2'' ''/overlays/hat.png'' (addOverlay ''ov_1'' ''/overlays/mustache.png'' [])"
  let ?pre = "[OverlaysChanged (addOverlay ''ov_1'' ''/overlays/mustache.png'' [])]"
  let ?st0 = "overlay_run ?pre overlay_init"
  let ?st1 = "overlay_step (OverlaysChanged ?ovs) ?st0"
  let ?both = "[OverlayLoaded 1 1 200 100, OverlayLoaded 0 0 64 64, OverlayLoaded 1 0 300 150]"
  let ?one = "[OverlayLoaded 1 1 200 100, OverlayLoaded 0 0 64 64]"
  let ?fail = "[OverlayLoaded 1 1 200 100, OverlayFailed 1 0, OverlayLoaded 0 0 64 64]"
  let ?dims = "[(300, 150), (200, 100)] :: (nat \<times> nat) list"
  have st0: "?st0 = \<lparr>overlayImgs = Map.empty,
       batches = [\<lparr>ob_needed = [(''ov_1'', ''/overlays/mustache.png'')],
                   ob_results = [Pending], ob_cancelled = False\<rparr>],
       batch_current = Some 0\<rparr>"
    by (simp add: overlay_run_def overlay_effect_def overlay_cleanup_def overlay_init_def
        needed_of_def addOverlay_def truthy_def Let_def)
  have nd: "needed_of ?ovs (overlayImgs ?st0) =
      [(''ov_1'', ''/overlays/mustache.png''), (''ov_2'', ''/overlays/hat.png'')]"
    unfolding st0 by (simp add: needed_of_def addOverlay_def truthy_def)
  have b: "length (batches ?st0) = 1" and imgs0: "overlayImgs ?st0 = Map.empty"
    unfolding st0 by simp_all
  have ne: "needed_of ?ovs (overlayImgs ?st0) \<noteq> []" unfolding nd by simp
  have es2: "\<forall>e\<in>set ?both. \<not> is_change e" and es1: "\<forall>e\<in>set ?one. \<not> is_change e"
    and es3: "\<forall>e\<in>set ?fail. \<not> is_change e"
    by simp_all
  have all: "length ?dims = length (needed_of ?ovs (overlayImgs ?st0)) \<and>
      (\<forall>i<length (needed_of ?ovs (overlayImgs ?st0)).
         first_completion (length (batches ?st0)) i ?both = Fulfilled (?dims ! i))"
    unfolding nd b by (simp add: All_less_Suc)
  have pending: "\<exists>i<length (needed_of ?ovs (overlayImgs ?st0)).
      \<forall>d. first_completion (length (batches ?st0)) i ?one \<noteq> Fulfilled d"
    unfolding nd b by (intro exI [of _ 0]) simp
  have failed: "\<exists>i<length (needed_of ?ovs (overlayImgs ?st0)).
      \<forall>d. first_completion (length (batches ?st0)) i ?fail \<noteq> Fulfilled d"
    unfolding nd b by (intro exI [of _ 0]) simp
  have "overlayImgs (overlay_run ?both ?st1) =
      overlayImgs ?st0 ++ map_of (rev (map2 image_of (needed_of ?ovs (overlayImgs ?st0)) ?dims))"
    using overlay_batch_all_or_nothing [where pre = ?pre and ovs = ?ovs and es = ?both, OF ne es2] all
    by blast
  moreover have "overlayImgs (overlay_run ?one ?st1) = overlayImgs ?st0"
    using overlay_batch_all_or_nothing [where pre = ?pre and ovs = ?ovs and es = ?one, OF ne es1] pending
    by blast
  moreover have "overlayImgs (overlay_run ?fail ?st1) = overlayImgs ?st0"
    using overlay_batch_all_or_nothing [where pre = ?pre and ovs = ?ovs and es = ?fail, OF ne es3] failed
    by blast
  ultimately show ?thesis
    unfolding imgs0 by (simp add: image_of_def needed_of_def addOverlay_def truthy_def)
qed

text \<open>
  The claim as first stated fails: with two missing overlays, the decode of the first
  succeeds and is not in the cache when it completes, and it is still not there after
  the decode of the second has failed.
\<close>

theorem overlay_batch_failure_counterexample:
  "ob_results (batches
     (overlay_run [OverlayLoaded 0 0 300 150, OverlayFailed 0 1]
        (overlay_step
           (OverlaysChanged (addOverlay ''ov_2'' ''/overlays/hat.png''
                              (addOverlay ''ov_1'' ''/overlays/mustache.png'' [])))
           overlay_init)) ! 0)
     = [Fulfilled (''ov_1'', \<lparr>img_src = ''/overlays/mustache.png'', naturalWidth = 300,
                                naturalHeight = 150\<rparr>),
        Rejected] \<and>
   overlayImgs
     (overlay_run [OverlayLoaded 0 0 300 150]
        (overlay_step
           (OverlaysChanged (addOverlay ''ov_2'' ''/overlays/hat.png''
                              (addOverlay ''ov_1'' ''/overlays/mustache.png'' [])))
           overlay_init)) ''ov_1'' = None \<and>
   overlayImgs
     (overlay_run [OverlayLoaded 0 0 300 150, OverlayFailed 0 1]
        (overlay_step
           (OverlaysChanged (addOverlay ''ov_2'' ''/overlays/hat.png''
                              (addOverlay ''ov_1'' ''/overlays/mustache.png'' [])))
           overlay_init)) ''ov_1'' = None"
  by (simp add: overlay_run_def overlay_init_def overlay_effect_def overlay_cleanup_def
      needed_of_def addOverlay_def truthy_def settle_def Let_def)

section \<open>Further properties of the handlers and the load effects\<close>

text \<open>
  Wheel rotation. With an overlay selected, a wheel event with the shift key adds
  \<open>sign(deltaY) * 0.08\<close> to the rotation of the overlay with the selected id, without
  any clamping, and leaves every other overlay, the drag state and the selection alone.
\<close>

theorem wheel_rotation:
  assumes "selectedId st = Some sid" and "sid \<noteq> []" and "shiftKey e"
  shows "overlays (onWheel e st) =
           map (\<lambda>ov. if o_id ov = sid
                      then ov\<lparr>o_rotation := o_rotation ov + sgn (deltaY e) * 0.08\<rparr>
                      else ov)
               (overlays st) \<and>
         drag (onWheel e st) = drag st \<and> selectedId (onWheel e st) = selectedId st"
  using assms by (auto simp: onWheel_def Let_def truthy_def)

theorem wheel_rotation_witness:
  "overlays (onWheel \<lparr>deltaY = 120, shiftKey = True\<rparr>
      \<lparr>overlays = addText ''txt_1'' (addOverlay ''ov_1'' ''/overlays/hat.png'' []),
       drag = None, selectedId = Some ''txt_1''\<rparr>)
   = [\<lparr>o_id = ''ov_1'', o_kind = Image, o_x = 300, o_y = 300, o_scale = 0.6,
        o_rotation = 0, o_src = Some ''/overlays/hat.png'', o_text = None\<rparr>,
      \<lparr>o_id = ''txt_1'', o_kind = Text, o_x = 300, o_y = 80, o_scale = 1,
        o_rotation = 0.08, o_src = None, o_text = Some ''LOL''\<rparr>]"
  using wheel_rotation
    [of "\<lparr>overlays = addText ''txt_1'' (addOverlay ''ov_1'' ''/overlays/hat.png'' []),
          drag = None, selectedId = Some ''txt_1''\<rparr>" "''txt_1''"
        "\<lparr>deltaY = 120, shiftKey = True\<rparr>"]
  by (simp add: addText_def addOverlay_def)

text \<open>
  Viewport sizing. The stage is square and its side lies between 320 and 900; without
  a measured container width it is 600.
\<close>

theorem stageSize_square:
  "fst (stageSize cw) = snd (stageSize cw) \<and>
   320 \<le> fst (stageSize cw) \<and> fst (stageSize cw) \<le> 900 \<and>
   stageSize None = (600, 600)"
  by (simp add: stageSize_def clamp_def Let_def split: option.splits)

text \<open>Pointer-up ends any drag and changes nothing else.\<close>

theorem onPointerUp_idle:
  "drag (onPointerUp st) = None \<and>
   overlays (onPointerUp st) = overlays st \<and>
   selectedId (onPointerUp st) = selectedId st"
  by (simp add: onPointerUp_def)

text \<open>
  Stale base success. The successful decode of a base request that has been superseded
  leaves the base slot as it is.
\<close>

theorem stale_base_success_is_discarded:
  assumes "k < length (base_loads st)" and "bl_cancelled (base_loads st ! k)"
  shows "baseImg (base_step (BaseLoaded k w h) st) = baseImg st"
  using assms by (simp add: Let_def)

theorem stale_base_success_is_discarded_witness:
  "baseImg (base_step (BaseLoaded 0 640 480)
      (base_run [SetBaseImageUrl (Some ''blob:b''), BaseLoaded 1 800 600]
         (base_mount (Some ''/sample-face.jpg''))))
   = Some \<lparr>img_src = ''blob:b'', naturalWidth = 800, naturalHeight = 600\<rparr>"
  using stale_base_success_is_discarded
    [of 0 "base_run [SetBaseImageUrl (Some ''blob:b''), BaseLoaded 1 800 600]
             (base_mount (Some ''/sample-face.jpg''))" 640 480]
  by (simp add: base_run_def base_mount_def base_init_def base_effect_def base_cleanup_def Let_def)

text \<open>
  Superseded overlay batch. Once a newer collection change has set a batch's
  \<open>cancelled\<close> flag, no completion of that batch changes the cache.
\<close>

theorem superseded_batch_is_discarded:
  assumes "ob_cancelled (batches st ! b)" and "completes b e"
  shows "overlayImgs (overlay_step e st) = overlayImgs st"
proof (cases e)
  case (OverlaysChanged ovs)
  then show ?thesis using assms(2) by simp
next
  case (OverlayLoaded b' i w h)
  then show ?thesis using assms
    by (simp add: settle_def Let_def split: outcome.splits prod.splits)
next
  case (OverlayFailed b' i)
  then show ?thesis using assms
    by (simp add: settle_def Let_def split: outcome.splits)
qed

theorem superseded_batch_is_discarded_witness:
  "overlayImgs
     (overlay_step (OverlayLoaded 0 0 300 150)
        (overlay_run
           [OverlaysChanged (addOverlay ''ov_1'' ''/overlays/mustache.png'' []),
            OverlaysChanged (addText ''txt_1'' (addOverlay ''ov_1'' ''/overlays/mustache.png'' []))]
           overlay_init))
   = Map.empty"
  using superseded_batch_is_discarded
    [of "overlay_run
           [OverlaysChanged (addOverlay ''ov_1'' ''/overlays/mustache.png'' []),
            OverlaysChanged (addText ''txt_1'' (addOverlay ''ov_1'' ''/overlays/mustache.png'' []))]
           overlay_init" 0 "OverlayLoaded 0 0 300 150"]
  by (simp add: overlay_run_def overlay_init_def overlay_effect_def overlay_cleanup_def
      needed_of_def addOverlay_def addText_def truthy_def Let_def)

end
